theory Spec2Isabelle
  imports Main "HOL-Library.Word"
begin

unbundle bit_operations_syntax

section \<open>Error taxonomy\<close>

text \<open>
  Every function of \<^verbatim>\<open>deflate.c\<close> returns \<^verbatim>\<open>-1\<close> on failure and describes the
  failure through the error chain.  The model returns the innermost failure as a value,
  named after the condition that the source tests.  \<open>MemoryFault\<close> is not a return
  value of the source: it marks an array access outside the bounds of the C array, where
  the behaviour of the C program is undefined.  \<open>PresetDictionaryRequired\<close> belongs to
  the documented taxonomy; no branch of the source produces it.
\<close>

datatype error =
    InvalidArgument
  | Truncated
  | UnsupportedMethod
  | UnsupportedWindow
  | PresetDictionaryRequired
  | InvalidBlockType
  | LengthMismatch
  | OutOfRange
  | OverSubscribed
  | EmptyTable
  | BadCode
  | BadSymbol
  | BadRepeat
  | BadHeader
  | MissingEndOfBlock
  | BadDistance
  | OutputOverflow
  | ChecksumMismatch
  | MemoryFault

section \<open>Bit stream\<close>

text \<open>
  \<^verbatim>\<open>struct deflate_bit_stream\<close>.  The byte stream is the caller's buffer; sizes and
  offsets are \<^verbatim>\<open>size_t\<close> and are modelled as naturals (the source only ever compares
  them and advances the offset below the size).  \<^verbatim>\<open>bit_buffer_size\<close> is a
  \<^verbatim>\<open>uint8_t\<close>; a refill happens only below the requested number of bits, so it stays
  below 40 and never wraps.
\<close>

record deflate_bit_stream =
  byte_stream :: "8 word list"
  byte_stream_size :: nat
  byte_stream_offset :: nat
  bit_buffer :: "32 word"
  bit_buffer_size :: nat

text \<open>One round of the refill loop: the next byte is shifted above the buffered bits.\<close>

definition refill :: "deflate_bit_stream \<Rightarrow> deflate_bit_stream" where
  "refill bs =
     bs\<lparr> byte_stream_offset := byte_stream_offset bs + 1,
         bit_buffer := bit_buffer bs
            OR push_bit (bit_buffer_size bs) (ucast (byte_stream bs ! byte_stream_offset bs)),
         bit_buffer_size := bit_buffer_size bs + 8 \<rparr>"

text \<open>The \<^verbatim>\<open>while( bit_buffer_size < number_of_bits )\<close> loop of
  \<^verbatim>\<open>deflate_bit_stream_get_value\<close>.\<close>

function get_value_fill :: "deflate_bit_stream \<Rightarrow> nat \<Rightarrow> error + deflate_bit_stream" where
  "get_value_fill bs number_of_bits =
     (if bit_buffer_size bs < number_of_bits then
        if byte_stream_offset bs \<ge> byte_stream_size bs then Inl Truncated
        else get_value_fill (refill bs) number_of_bits
      else Inr bs)"
  by pat_completeness auto
termination
  by (relation "measure (\<lambda>(bs, n). n - bit_buffer_size bs)") (auto simp: refill_def)

declare get_value_fill.simps [simp del]

definition deflate_bit_stream_get_value ::
  "deflate_bit_stream \<Rightarrow> nat \<Rightarrow> error + (32 word \<times> deflate_bit_stream)" where
  "deflate_bit_stream_get_value bs number_of_bits =
     (if number_of_bits > 32 then Inl InvalidArgument
      else if number_of_bits = 0 then Inr (0, bs)
      else case get_value_fill bs number_of_bits of
          Inl e \<Rightarrow> Inl e
        | Inr bs1 \<Rightarrow>
            if number_of_bits < 32 then
              Inr (bit_buffer bs1 AND NOT (push_bit number_of_bits 0xffffffff),
                   bs1\<lparr> bit_buffer := drop_bit number_of_bits (bit_buffer bs1),
                        bit_buffer_size := bit_buffer_size bs1 - number_of_bits \<rparr>)
            else
              Inr (bit_buffer bs1, bs1\<lparr> bit_buffer := 0, bit_buffer_size := 0 \<rparr>))"


section \<open>Huffman table\<close>

text \<open>
  \<^verbatim>\<open>struct deflate_huffman_table\<close>: \<^verbatim>\<open>int codes_array[ 288 ]\<close>,
  \<^verbatim>\<open>int code_counts_array[ 16 ]\<close>.  The C \<^verbatim>\<open>int\<close> values are symbols, counts and
  offsets bounded by the number of code sizes, far below \<open>2^31\<close>; they are modelled as
  unbounded integers.
\<close>

record deflate_huffman_table =
  maximum_number_of_bits :: nat
  codes_array :: "int list"
  code_counts_array :: "int list"
  number_of_codes :: int

text \<open>
  First loop of \<^verbatim>\<open>deflate_huffman_table_construct\<close>: the histogram of the code sizes.
  The source rejects a code size only when it is greater than \<^verbatim>\<open>number_of_codes\<close>
  (which is 16); a code size of exactly 16 passes the test and indexes the 16-entry array
  \<^verbatim>\<open>code_counts_array\<close> out of bounds.
\<close>

function count_code_sizes ::
  "16 word list \<Rightarrow> nat \<Rightarrow> nat \<Rightarrow> deflate_huffman_table \<Rightarrow> error + deflate_huffman_table" where
  "count_code_sizes code_sizes_array number_of_code_sizes symbol table =
     (if symbol < number_of_code_sizes then
        if length code_sizes_array \<le> symbol then Inl MemoryFault
        else
          let code_size = code_sizes_array ! symbol in
          if uint code_size > number_of_codes table then Inl OutOfRange
          else if 16 \<le> unat code_size then Inl MemoryFault
          else count_code_sizes code_sizes_array number_of_code_sizes (symbol + 1)
                 (table\<lparr> code_counts_array :=
                    (code_counts_array table)
                      [unat code_size := code_counts_array table ! unat code_size + 1] \<rparr>)
      else Inr table)"
  by pat_completeness auto
termination
  by (relation "measure (\<lambda>(a, n, symbol, t). n - symbol)") auto

declare count_code_sizes.simps [simp del]

text \<open>Second loop: the over-subscription check, \<^verbatim>\<open>bit_index\<close> from 1 to
  \<^verbatim>\<open>maximum_number_of_bits\<close>.\<close>

function check_left_value :: "deflate_huffman_table \<Rightarrow> nat \<Rightarrow> int \<Rightarrow> error + int" where
  "check_left_value table bit_index left_value =
     (if bit_index \<le> maximum_number_of_bits table then
        let left_value = push_bit 1 left_value - code_counts_array table ! bit_index in
        if left_value < 0 then Inl OverSubscribed
        else check_left_value table (bit_index + 1) left_value
      else Inr left_value)"
  by pat_completeness auto
termination
  by (relation "measure (\<lambda>(t, bit_index, l). Suc (maximum_number_of_bits t) - bit_index)") auto

declare check_left_value.simps [simp del]

text \<open>Third loop: the offsets for sorting the symbol table.\<close>

function calculate_code_offsets :: "deflate_huffman_table \<Rightarrow> nat \<Rightarrow> int list \<Rightarrow> int list" where
  "calculate_code_offsets table bit_index code_offsets_array =
     (if bit_index < maximum_number_of_bits table then
        calculate_code_offsets table (bit_index + 1)
          (code_offsets_array
             [bit_index + 1 := code_offsets_array ! bit_index + code_counts_array table ! bit_index])
      else code_offsets_array)"
  by pat_completeness auto
termination
  by (relation "measure (\<lambda>(t, bit_index, l). maximum_number_of_bits t - bit_index)") auto

declare calculate_code_offsets.simps [simp del]

text \<open>Fourth loop: every symbol with a non-zero code size is stored at the offset of
  its code size.\<close>

function fill_codes_array ::
  "16 word list \<Rightarrow> nat \<Rightarrow> nat \<Rightarrow> int list \<Rightarrow> deflate_huffman_table
     \<Rightarrow> error + deflate_huffman_table" where
  "fill_codes_array code_sizes_array number_of_code_sizes symbol code_offsets_array table =
     (if symbol < number_of_code_sizes then
        if length code_sizes_array \<le> symbol then Inl MemoryFault
        else
          let code_size = code_sizes_array ! symbol in
          if code_size = 0 then
            fill_codes_array code_sizes_array number_of_code_sizes (symbol + 1)
              code_offsets_array table
          else if 16 \<le> unat code_size then Inl MemoryFault
          else
            let code_offset = code_offsets_array ! unat code_size in
            if code_offset < 0 \<or> code_offset > int number_of_code_sizes then Inl OutOfRange
            else if 288 \<le> code_offset then Inl MemoryFault
            else fill_codes_array code_sizes_array number_of_code_sizes (symbol + 1)
                   (code_offsets_array [unat code_size := code_offset + 1])
                   (table\<lparr> codes_array := (codes_array table) [nat code_offset := int symbol] \<rparr>)
      else Inr table)"
  by pat_completeness auto
termination
  by (relation "measure (\<lambda>(a, n, symbol, l, t). n - symbol)") auto

declare fill_codes_array.simps [simp del]

text \<open>
  \<^verbatim>\<open>deflate_huffman_table_construct\<close>.  \<open>Inr (Some table)\<close> is the return value 1,
  \<open>Inr None\<close> the return value 0 (the table has no codes), \<open>Inl\<close> the return value -1.
\<close>

definition deflate_huffman_table_construct ::
  "16 word list \<Rightarrow> int \<Rightarrow> error + deflate_huffman_table option" where
  "deflate_huffman_table_construct code_sizes_array number_of_code_sizes =
     (if number_of_code_sizes < 0 then Inl InvalidArgument
      else
        let table = \<lparr> maximum_number_of_bits = 15,
                      codes_array = replicate 288 0,
                      code_counts_array = replicate 16 0,
                      number_of_codes = 15 + 1 \<rparr>
        in case count_code_sizes code_sizes_array (nat number_of_code_sizes) 0 table of
             Inl e \<Rightarrow> Inl e
           | Inr table \<Rightarrow>
               if code_counts_array table ! 0 = number_of_code_sizes then Inr None
               else
                 case check_left_value table 1 1 of
                   Inl e \<Rightarrow> Inl e
                 | Inr left_value \<Rightarrow>
                     let code_offsets_array =
                           calculate_code_offsets table 1 ((replicate 16 0) [0 := 0, 1 := 0])
                     in case fill_codes_array code_sizes_array (nat number_of_code_sizes) 0
                               code_offsets_array table of
                          Inl e \<Rightarrow> Inl e
                        | Inr table \<Rightarrow> Inr (Some table))"

section \<open>Huffman symbol reader\<close>

text \<open>The "try to fill" loop of \<^verbatim>\<open>deflate_bit_stream_get_huffman_encoded_value\<close>: it
  stops, without failing, when the byte stream is exhausted.\<close>

function huffman_fill :: "deflate_bit_stream \<Rightarrow> nat \<Rightarrow> deflate_bit_stream" where
  "huffman_fill bs maximum =
     (if bit_buffer_size bs < maximum then
        if byte_stream_offset bs \<ge> byte_stream_size bs then bs
        else huffman_fill (refill bs) maximum
      else bs)"
  by pat_completeness auto
termination
  by (relation "measure (\<lambda>(bs, n). n - bit_buffer_size bs)") (auto simp: refill_def)

declare huffman_fill.simps [simp del]

text \<open>
  The search loop over the code sizes.  It returns the \<^verbatim>\<open>bit_index\<close> at which a code
  was found together with the symbol (\<open>buffer\<close> is the local copy of the bit buffer);
  running past \<^verbatim>\<open>number_of_bits\<close> leaves
  \<^verbatim>\<open>result\<close> at 0, which the caller reports as an invalid Huffman encoded value.
\<close>

function huffman_search ::
  "deflate_huffman_table \<Rightarrow> nat \<Rightarrow> nat \<Rightarrow> 32 word \<Rightarrow> int \<Rightarrow> int \<Rightarrow> int
     \<Rightarrow> error + (nat \<times> 32 word)" where
  "huffman_search table number_of_bits bit_index buffer huffman_code first_huffman_code
       first_index =
     (if bit_index \<le> number_of_bits then
        let huffman_code = push_bit 1 huffman_code OR uint (buffer AND 1);
            buffer = drop_bit 1 buffer;
            code_size_count = code_counts_array table ! bit_index
        in
          if huffman_code - code_size_count < first_huffman_code then
            let i = first_index + (huffman_code - first_huffman_code) in
            if i < 0 \<or> 288 \<le> i then Inl MemoryFault
            else Inr (bit_index, word_of_int (codes_array table ! nat i))
          else
            huffman_search table number_of_bits (bit_index + 1) buffer huffman_code
              (push_bit 1 (first_huffman_code + code_size_count))
              (first_index + code_size_count)
      else Inl BadCode)"
  by pat_completeness auto
termination
  by (relation "measure (\<lambda>(t, n, bit_index, r). Suc n - bit_index)") auto

declare huffman_search.simps [simp del]

definition deflate_bit_stream_get_huffman_encoded_value ::
  "deflate_bit_stream \<Rightarrow> deflate_huffman_table \<Rightarrow> error + (32 word \<times> deflate_bit_stream)" where
  "deflate_bit_stream_get_huffman_encoded_value bs table =
     (let bs = huffman_fill bs (maximum_number_of_bits table);
          number_of_bits =
            (if maximum_number_of_bits table < bit_buffer_size bs
             then maximum_number_of_bits table else bit_buffer_size bs)
      in case huffman_search table number_of_bits 1 (bit_buffer bs) 0 0 0 of
           Inl e \<Rightarrow> Inl e
         | Inr (bit_index, value_32bit) \<Rightarrow>
             Inr (value_32bit,
                  bs\<lparr> bit_buffer := drop_bit bit_index (bit_buffer bs),
                      bit_buffer_size := bit_buffer_size bs - bit_index \<rparr>))"

section \<open>Progress of the bit stream\<close>

text \<open>
  The number of bits that a bit stream still holds: the buffered bits and the bytes
  between the offset and the size.  Every read consumes some of them, which is what
  makes the decoding loops terminate.
\<close>

definition bits_left :: "deflate_bit_stream \<Rightarrow> nat" where
  "bits_left bs = bit_buffer_size bs + 8 * (byte_stream_size bs - byte_stream_offset bs)"

lemma bits_left_refill:
  "byte_stream_offset bs < byte_stream_size bs \<Longrightarrow> bits_left (refill bs) = bits_left bs"
  by (simp add: bits_left_def refill_def)

lemma get_value_fill_bits_left:
  "get_value_fill bs n = Inr bs1 \<Longrightarrow> bits_left bs1 = bits_left bs \<and> (0 < n \<longrightarrow> n \<le> bit_buffer_size bs1)"
proof (induction bs n rule: get_value_fill.induct)
  case (1 bs n)
  show ?case
  proof (cases "bit_buffer_size bs < n")
    case False
    with "1.prems" show ?thesis by (simp add: get_value_fill.simps)
  next
    case True
    with "1.prems" have lt: "byte_stream_offset bs < byte_stream_size bs"
      and rec: "get_value_fill (refill bs) n = Inr bs1"
      by (auto simp: get_value_fill.simps [of bs] split: if_splits)
    from "1.IH" [OF True _ rec] lt show ?thesis
      by (simp add: bits_left_refill)
  qed
qed

lemma get_value_bits_left:
  assumes "deflate_bit_stream_get_value bs n = Inr (v, bs')"
  shows "bits_left bs' + n \<le> bits_left bs"
proof (cases "n = 0")
  case True
  with assms show ?thesis by (simp add: deflate_bit_stream_get_value_def)
next
  case False
  with assms obtain bs1 where fill: "get_value_fill bs n = Inr bs1"
    and bs': "bs' = (if n < 32
        then bs1\<lparr> bit_buffer := drop_bit n (bit_buffer bs1), bit_buffer_size := bit_buffer_size bs1 - n \<rparr>
        else bs1\<lparr> bit_buffer := 0, bit_buffer_size := 0 \<rparr>)"
    by (auto simp: deflate_bit_stream_get_value_def split: if_splits sum.splits)
  from get_value_fill_bits_left [OF fill] False
  have "bits_left bs1 = bits_left bs" "n \<le> bit_buffer_size bs1" by simp_all
  then show ?thesis unfolding bs' by (auto simp: bits_left_def)
qed

lemma huffman_fill_bits_left: "bits_left (huffman_fill bs m) = bits_left bs"
proof (induction bs m rule: huffman_fill.induct)
  case (1 bs m)
  show ?case
  proof (cases "bit_buffer_size bs < m \<and> byte_stream_offset bs < byte_stream_size bs")
    case True
    then show ?thesis using "1.IH"
      by (subst huffman_fill.simps) (simp add: bits_left_refill)
  next
    case False
    then show ?thesis by (subst huffman_fill.simps) auto
  qed
qed

lemma huffman_search_bit_index:
  "huffman_search table number_of_bits bit_index buffer code first_code first_index = Inr (k, v)
   \<Longrightarrow> bit_index \<le> k \<and> k \<le> number_of_bits"
proof (induction table number_of_bits bit_index buffer code first_code first_index
       rule: huffman_search.induct)
  case (1 table number_of_bits bit_index buffer code first_code first_index)
  from "1.prems" have le: "bit_index \<le> number_of_bits"
    by (subst (asm) huffman_search.simps) (simp split: if_splits)
  show ?case
  proof (cases "(push_bit 1 code OR uint (buffer AND 1)) - code_counts_array table ! bit_index < first_code")
    case True
    with "1.prems" le show ?thesis
      by (subst (asm) huffman_search.simps) (simp add: Let_def split: if_splits)
  next
    case False
    with "1.prems" le have
      "huffman_search table number_of_bits (bit_index + 1) (drop_bit 1 buffer)
         (push_bit 1 code OR uint (buffer AND 1))
         (push_bit 1 (first_code + code_counts_array table ! bit_index))
         (first_index + code_counts_array table ! bit_index) = Inr (k, v)"
      by (subst (asm) huffman_search.simps) (simp add: Let_def)
    from "1.IH" [OF le refl refl refl _ this] False show ?thesis by simp
  qed
qed

lemma get_huffman_encoded_value_bits_left:
  assumes "deflate_bit_stream_get_huffman_encoded_value bs table = Inr (v, bs')"
  shows "bits_left bs' < bits_left bs"
proof -
  let ?bs1 = "huffman_fill bs (maximum_number_of_bits table)"
  let ?nb = "if maximum_number_of_bits table < bit_buffer_size ?bs1
             then maximum_number_of_bits table else bit_buffer_size ?bs1"
  from assms obtain k where s: "huffman_search table ?nb 1 (bit_buffer ?bs1) 0 0 0 = Inr (k, v)"
    and bs': "bs' = ?bs1\<lparr> bit_buffer := drop_bit k (bit_buffer ?bs1),
                      bit_buffer_size := bit_buffer_size ?bs1 - k \<rparr>"
    unfolding deflate_bit_stream_get_huffman_encoded_value_def Let_def
    by (cases "huffman_search table ?nb 1 (bit_buffer ?bs1) 0 0 0") auto
  from huffman_search_bit_index [OF s] have "1 \<le> k" "k \<le> bit_buffer_size ?bs1"
    by (auto split: if_splits)
  then have "bits_left bs' < bits_left ?bs1" unfolding bs' by (simp add: bits_left_def)
  then show ?thesis by (simp add: huffman_fill_bits_left)
qed

section \<open>Building the Huffman tables of a block\<close>

text \<open>Every caller of \<^verbatim>\<open>deflate_huffman_table_construct\<close> tests its result with
  \<^verbatim>\<open>!= 1\<close>: the return value 0 (no codes) is a failure as well.\<close>

definition construct_table :: "16 word list \<Rightarrow> int \<Rightarrow> error + deflate_huffman_table" where
  "construct_table code_sizes_array number_of_code_sizes =
     (case deflate_huffman_table_construct code_sizes_array number_of_code_sizes of
        Inl e \<Rightarrow> Inl e
      | Inr None \<Rightarrow> Inl EmptyTable
      | Inr (Some table) \<Rightarrow> Inr table)"

definition code_sizes_sequence :: "nat list" where
  "code_sizes_sequence = [16, 17, 18, 0, 8, 7, 9, 6, 10, 5, 11, 4, 12, 3, 13, 2, 14, 1, 15]"

text \<open>The \<^verbatim>\<open>for\<close> loop that reads \<^verbatim>\<open>number_of_code_sizes\<close> 3-bit code sizes.\<close>

function read_code_sizes ::
  "deflate_bit_stream \<Rightarrow> nat \<Rightarrow> nat \<Rightarrow> 16 word list
     \<Rightarrow> error + (16 word list \<times> deflate_bit_stream)" where
  "read_code_sizes bs number_of_code_sizes code_size_index code_size_array =
     (if code_size_index < number_of_code_sizes then
        case deflate_bit_stream_get_value bs 3 of
          Inl e \<Rightarrow> Inl e
        | Inr (code_size, bs) \<Rightarrow>
            read_code_sizes bs number_of_code_sizes (code_size_index + 1)
              (code_size_array [code_sizes_sequence ! code_size_index := ucast code_size])
      else Inr (code_size_array, bs))"
  by pat_completeness auto
termination
  by (relation "measure (\<lambda>(bs, n, i, a). n - i)") auto

declare read_code_sizes.simps [simp del]

text \<open>The \<^verbatim>\<open>while( code_size_index < 19 )\<close> loop that clears the remaining code sizes.\<close>

function clear_code_sizes :: "nat \<Rightarrow> 16 word list \<Rightarrow> 16 word list" where
  "clear_code_sizes code_size_index code_size_array =
     (if code_size_index < 19 then
        clear_code_sizes (code_size_index + 1)
          (code_size_array [code_sizes_sequence ! code_size_index := 0])
      else code_size_array)"
  by pat_completeness auto
termination
  by (relation "measure (\<lambda>(i, a). 19 - i)") auto

declare clear_code_sizes.simps [simp del]

text \<open>
  The symbols 16, 17 and 18 of the code-size alphabet: the code size to store and the
  number of times to store it.
\<close>

definition get_times_to_repeat ::
  "deflate_bit_stream \<Rightarrow> 32 word \<Rightarrow> nat \<Rightarrow> 16 word list
     \<Rightarrow> error + (32 word \<times> nat \<times> deflate_bit_stream)" where
  "get_times_to_repeat bs symbol code_size_index code_size_array =
     (if symbol = 16 then
        if code_size_index = 0 then Inl BadRepeat
        else
          case deflate_bit_stream_get_value bs 2 of
            Inl e \<Rightarrow> Inl e
          | Inr (times_to_repeat, bs) \<Rightarrow>
              Inr (ucast (code_size_array ! (code_size_index - 1)), unat times_to_repeat + 3, bs)
      else if symbol = 17 then
        case deflate_bit_stream_get_value bs 3 of
          Inl e \<Rightarrow> Inl e
        | Inr (times_to_repeat, bs) \<Rightarrow> Inr (0, unat times_to_repeat + 3, bs)
      else if symbol = 18 then
        case deflate_bit_stream_get_value bs 7 of
          Inl e \<Rightarrow> Inl e
        | Inr (times_to_repeat, bs) \<Rightarrow> Inr (0, unat times_to_repeat + 11, bs)
      else Inl BadSymbol)"

text \<open>The \<^verbatim>\<open>while( times_to_repeat > 0 )\<close> loop.\<close>

fun repeat_code_size :: "16 word list \<Rightarrow> nat \<Rightarrow> 16 word \<Rightarrow> nat \<Rightarrow> 16 word list \<times> nat" where
  "repeat_code_size code_size_array code_size_index code_size 0 =
     (code_size_array, code_size_index)"
| "repeat_code_size code_size_array code_size_index code_size (Suc times_to_repeat) =
     repeat_code_size (code_size_array [code_size_index := code_size]) (code_size_index + 1)
       code_size times_to_repeat"

lemma get_times_to_repeat_positive:
  "get_times_to_repeat bs symbol i a = Inr (code_size, times_to_repeat, bs') \<Longrightarrow>
   3 \<le> times_to_repeat"
  by (auto simp: get_times_to_repeat_def split: if_splits sum.splits)

lemma repeat_code_size_index:
  "snd (repeat_code_size a i c n) = i + n"
  by (induction n arbitrary: a i) simp_all

text \<open>The loop that decodes the code sizes of the literal and distance alphabets.\<close>

function decode_code_sizes ::
  "deflate_bit_stream \<Rightarrow> deflate_huffman_table \<Rightarrow> nat \<Rightarrow> nat \<Rightarrow> 16 word list
     \<Rightarrow> error + (16 word list \<times> deflate_bit_stream)" where
  "decode_code_sizes bs codes_table number_of_code_sizes code_size_index code_size_array =
     (if code_size_index < number_of_code_sizes then
        case deflate_bit_stream_get_huffman_encoded_value bs codes_table of
          Inl e \<Rightarrow> Inl e
        | Inr (symbol, bs) \<Rightarrow>
            if symbol < 16 then
              decode_code_sizes bs codes_table number_of_code_sizes (code_size_index + 1)
                (code_size_array [code_size_index := ucast symbol])
            else
              case get_times_to_repeat bs symbol code_size_index code_size_array of
                Inl e \<Rightarrow> Inl e
              | Inr (code_size, times_to_repeat, bs) \<Rightarrow>
                  if code_size_index + times_to_repeat > number_of_code_sizes
                  then Inl BadRepeat
                  else
                    decode_code_sizes bs codes_table number_of_code_sizes
                      (code_size_index + times_to_repeat)
                      (fst (repeat_code_size code_size_array code_size_index (ucast code_size)
                              times_to_repeat))
      else Inr (code_size_array, bs))"
  by pat_completeness auto
termination
proof (relation "measure (\<lambda>(bs, t, n, i, a). n - i)", goal_cases)
  case 1
  show ?case by simp
next
  case (2 bs codes_table number_of_code_sizes code_size_index code_size_array x2 x y)
  then show ?case by simp
next
  case (3 bs codes_table number_of_code_sizes code_size_index code_size_array x2 x y x2a xa ya xb yb)
  from 3 have "get_times_to_repeat y x code_size_index code_size_array = Inr (xa, xb, yb)"
    by simp
  from get_times_to_repeat_positive [OF this] 3 show ?case by simp
qed

declare decode_code_sizes.simps [simp del]

definition deflate_initialize_dynamic_huffman_tables ::
  "deflate_bit_stream
     \<Rightarrow> error + (deflate_huffman_table \<times> deflate_huffman_table \<times> deflate_bit_stream)" where
  "deflate_initialize_dynamic_huffman_tables bs =
     (case deflate_bit_stream_get_value bs 14 of
        Inl e \<Rightarrow> Inl e
      | Inr (number_of_code_sizes, bs) \<Rightarrow>
          let number_of_literal_codes = number_of_code_sizes AND 0x0000001f;
              number_of_code_sizes = drop_bit 5 number_of_code_sizes;
              number_of_distance_codes = number_of_code_sizes AND 0x0000001f;
              number_of_code_sizes = drop_bit 5 number_of_code_sizes;
              number_of_literal_codes = number_of_literal_codes + 257
          in
            if number_of_literal_codes > 286 then Inl BadHeader
            else
              let number_of_distance_codes = number_of_distance_codes + 1 in
              if number_of_distance_codes > 30 then Inl BadHeader
              else
                let number_of_code_sizes = number_of_code_sizes + 4 in
                case read_code_sizes bs (unat number_of_code_sizes) 0 (replicate 316 0) of
                  Inl e \<Rightarrow> Inl e
                | Inr (code_size_array, bs) \<Rightarrow>
                    let code_size_array =
                          clear_code_sizes (unat number_of_code_sizes) code_size_array
                    in
                      case construct_table code_size_array 19 of
                        Inl e \<Rightarrow> Inl e
                      | Inr codes_table \<Rightarrow>
                          let number_of_code_sizes =
                                number_of_literal_codes + number_of_distance_codes
                          in
                            case decode_code_sizes bs codes_table (unat number_of_code_sizes)
                                   0 code_size_array of
                              Inl e \<Rightarrow> Inl e
                            | Inr (code_size_array, bs) \<Rightarrow>
                                if code_size_array ! 256 = 0 then Inl MissingEndOfBlock
                                else
                                  case construct_table code_size_array
                                         (uint number_of_literal_codes) of
                                    Inl e \<Rightarrow> Inl e
                                  | Inr literals_table \<Rightarrow>
                                      case construct_table
                                             (drop (unat number_of_literal_codes) code_size_array)
                                             (uint number_of_distance_codes) of
                                        Inl e \<Rightarrow> Inl e
                                      | Inr distances_table \<Rightarrow>
                                          Inr (literals_table, distances_table, bs))"

text \<open>\<^verbatim>\<open>deflate_initialize_fixed_huffman_tables\<close>: the 318 fixed code sizes, 288 for the
  literals followed by 30 for the distances.\<close>

definition fixed_code_size_array :: "16 word list" where
  "fixed_code_size_array =
     map (\<lambda>symbol. if symbol < 144 then 8
                    else if symbol < 256 then 9
                    else if symbol < 280 then 7
                    else if symbol < 288 then 8
                    else 5) [0..<318]"

definition deflate_initialize_fixed_huffman_tables ::
  "error + (deflate_huffman_table \<times> deflate_huffman_table)" where
  "deflate_initialize_fixed_huffman_tables =
     (case construct_table fixed_code_size_array 288 of
        Inl e \<Rightarrow> Inl e
      | Inr literals_table \<Rightarrow>
          case construct_table (drop 288 fixed_code_size_array) 30 of
            Inl e \<Rightarrow> Inl e
          | Inr distances_table \<Rightarrow> Inr (literals_table, distances_table))"

section \<open>Decoding a Huffman compressed block\<close>

definition literal_codes_base :: "16 word list" where
  "literal_codes_base =
     [3, 4, 5, 6, 7, 8, 9, 10, 11, 13, 15, 17, 19, 23, 27, 31,
      35, 43, 51, 59, 67, 83, 99, 115, 131, 163, 195, 227, 258]"

definition literal_codes_number_of_extra_bits :: "16 word list" where
  "literal_codes_number_of_extra_bits =
     [0, 0, 0, 0, 0, 0, 0, 0, 1, 1, 1, 1, 2, 2, 2, 2,
      3, 3, 3, 3, 4, 4, 4, 4, 5, 5, 5, 5, 0]"

definition distance_codes_base :: "16 word list" where
  "distance_codes_base =
     [1, 2, 3, 4, 5, 7, 9, 13, 17, 25, 33, 49, 65, 97, 129, 193,
      257, 385, 513, 769, 1025, 1537, 2049, 3073, 4097, 6145, 8193,
      12289, 16385, 24577]"

definition distance_codes_number_of_extra_bits :: "16 word list" where
  "distance_codes_number_of_extra_bits =
     [0, 0, 0, 0, 1, 1, 2, 2, 3, 3, 4, 4, 5, 5, 6, 6,
      7, 7, 8, 8, 9, 9, 10, 10, 11, 11, 12, 12, 13, 13]"

text \<open>\<^verbatim>\<open>SSIZE_MAX\<close> of a 64-bit platform, \<open>2^63 - 1\<close>.\<close>

definition SSIZE_MAX :: nat where
  "SSIZE_MAX = 9223372036854775807"

text \<open>
  The \<^verbatim>\<open>while( compression_size > 0 )\<close> loop: one byte at a time is copied from
  \<^verbatim>\<open>compression_offset\<close> bytes back to the current offset.
\<close>

fun copy_match :: "8 word list \<Rightarrow> nat \<Rightarrow> nat \<Rightarrow> nat \<Rightarrow> 8 word list \<times> nat" where
  "copy_match uncompressed_data data_offset compression_offset 0 =
     (uncompressed_data, data_offset)"
| "copy_match uncompressed_data data_offset compression_offset (Suc compression_size) =
     copy_match
       (uncompressed_data [data_offset := uncompressed_data ! (data_offset - compression_offset)])
       (data_offset + 1) compression_offset compression_size"

text \<open>
  The two bounds checks on a decoded pair of \<^verbatim>\<open>compression_offset\<close> (the distance) and
  \<^verbatim>\<open>compression_size\<close> (the length), followed by the copy loop.
\<close>

definition copy_compressed ::
  "8 word list \<Rightarrow> nat \<Rightarrow> nat \<Rightarrow> 16 word \<Rightarrow> 16 word \<Rightarrow> error + (8 word list \<times> nat)" where
  "copy_compressed uncompressed_data uncompressed_data_size data_offset compression_offset
       compression_size =
     (if unat compression_offset > data_offset then Inl BadDistance
      else if data_offset + unat compression_size > uncompressed_data_size
      then Inl OutputOverflow
      else Inr (copy_match uncompressed_data data_offset (unat compression_offset)
                  (unat compression_size)))"

text \<open>
  The branch of a length code (257 to 285): the extra bits of the length, the distance
  symbol and its extra bits, then the copy.  The arrays of the distance codes have 30
  entries; a distance symbol beyond them would be read out of bounds.
\<close>

definition decode_match ::
  "deflate_bit_stream \<Rightarrow> deflate_huffman_table \<Rightarrow> 32 word \<Rightarrow> 8 word list \<Rightarrow> nat \<Rightarrow> nat
     \<Rightarrow> error + (deflate_bit_stream \<times> 8 word list \<times> nat)" where
  "decode_match bs distances_table code_value uncompressed_data uncompressed_data_size
       data_offset =
     (let code_value = code_value - 257;
          number_of_extra_bits = literal_codes_number_of_extra_bits ! unat code_value
      in
        case deflate_bit_stream_get_value bs (unat (ucast number_of_extra_bits :: 8 word)) of
          Inl e \<Rightarrow> Inl e
        | Inr (extra_bits, bs) \<Rightarrow>
            let compression_size = literal_codes_base ! unat code_value + ucast extra_bits in
            case deflate_bit_stream_get_huffman_encoded_value bs distances_table of
              Inl e \<Rightarrow> Inl e
            | Inr (code_value, bs) \<Rightarrow>
                if 30 \<le> code_value then Inl MemoryFault
                else
                  let number_of_extra_bits =
                        distance_codes_number_of_extra_bits ! unat code_value
                  in
                    case deflate_bit_stream_get_value bs
                           (unat (ucast number_of_extra_bits :: 8 word)) of
                      Inl e \<Rightarrow> Inl e
                    | Inr (extra_bits, bs) \<Rightarrow>
                        let compression_offset =
                              distance_codes_base ! unat code_value + ucast extra_bits
                        in
                          case copy_compressed uncompressed_data uncompressed_data_size
                                 data_offset compression_offset compression_size of
                            Inl e \<Rightarrow> Inl e
                          | Inr (uncompressed_data, data_offset) \<Rightarrow>
                              Inr (bs, uncompressed_data, data_offset))"

lemma decode_match_bits_left:
  assumes "decode_match bs distances_table code_value out cap off = Inr (bs', out', off')"
  shows "bits_left bs' < bits_left bs"
proof -
  from assms obtain n1 e1 bs1 c2 bs2 n2 e2 where
    1: "deflate_bit_stream_get_value bs n1 = Inr (e1, bs1)" and
    2: "deflate_bit_stream_get_huffman_encoded_value bs1 distances_table = Inr (c2, bs2)" and
    3: "deflate_bit_stream_get_value bs2 n2 = Inr (e2, bs')"
    unfolding decode_match_def Let_def
    by (auto split: sum.splits if_splits)
  from get_value_bits_left [OF 1] get_huffman_encoded_value_bits_left [OF 2]
    get_value_bits_left [OF 3]
  show ?thesis by simp
qed

text \<open>
  \<^verbatim>\<open>deflate_decode_huffman\<close>: the \<^verbatim>\<open>do ... while( code_value != 256 )\<close> loop.  After
  a literal the code value is below 256, and after a match it holds the distance symbol,
  which is below 30: in both cases the loop continues.
\<close>

function decode_huffman_loop ::
  "deflate_bit_stream \<Rightarrow> deflate_huffman_table \<Rightarrow> deflate_huffman_table \<Rightarrow> 8 word list
     \<Rightarrow> nat \<Rightarrow> nat \<Rightarrow> error + (deflate_bit_stream \<times> 8 word list \<times> nat)" where
  "decode_huffman_loop bs literals_table distances_table uncompressed_data
       uncompressed_data_size data_offset =
     (case deflate_bit_stream_get_huffman_encoded_value bs literals_table of
        Inl e \<Rightarrow> Inl e
      | Inr (code_value, bs) \<Rightarrow>
          if code_value < 256 then
            if data_offset \<ge> uncompressed_data_size then Inl OutputOverflow
            else
              decode_huffman_loop bs literals_table distances_table
                (uncompressed_data [data_offset := ucast code_value])
                uncompressed_data_size (data_offset + 1)
          else if code_value > 256 \<and> code_value < 286 then
            case decode_match bs distances_table code_value uncompressed_data
                   uncompressed_data_size data_offset of
              Inl e \<Rightarrow> Inl e
            | Inr (bs, uncompressed_data, data_offset) \<Rightarrow>
                decode_huffman_loop bs literals_table distances_table uncompressed_data
                  uncompressed_data_size data_offset
          else if code_value \<noteq> 256 then Inl BadSymbol
          else Inr (bs, uncompressed_data, data_offset))"
  by pat_completeness auto
termination
proof (relation "measure (\<lambda>(bs, lt, dt, out, cap, off). bits_left bs)", goal_cases)
  case 1
  show ?case by simp
next
  case (2 bs literals_table distances_table uncompressed_data uncompressed_data_size data_offset
      x2 x y)
  then have "deflate_bit_stream_get_huffman_encoded_value bs literals_table = Inr (x, y)"
    by simp
  from get_huffman_encoded_value_bits_left [OF this] show ?case by simp
next
  case (3 bs literals_table distances_table uncompressed_data uncompressed_data_size data_offset
      x2 x y x2a xa ya xb yb)
  then have a: "deflate_bit_stream_get_huffman_encoded_value bs literals_table = Inr (x, y)"
    and b: "decode_match y distances_table x uncompressed_data uncompressed_data_size
              data_offset = Inr (xa, xb, yb)"
    by simp_all
  from get_huffman_encoded_value_bits_left [OF a] decode_match_bits_left [OF b]
  show ?case by simp
qed

declare decode_huffman_loop.simps [simp del]

definition deflate_decode_huffman ::
  "deflate_bit_stream \<Rightarrow> deflate_huffman_table \<Rightarrow> deflate_huffman_table \<Rightarrow> 8 word list
     \<Rightarrow> nat \<Rightarrow> nat \<Rightarrow> error + (deflate_bit_stream \<times> 8 word list \<times> nat)" where
  "deflate_decode_huffman bs literals_table distances_table uncompressed_data
       uncompressed_data_size uncompressed_data_offset =
     (if uncompressed_data_size > SSIZE_MAX then Inl InvalidArgument
      else decode_huffman_loop bs literals_table distances_table uncompressed_data
             uncompressed_data_size uncompressed_data_offset)"

section \<open>Adler-32\<close>

text \<open>
  The state of \<^verbatim>\<open>deflate_calculate_adler32\<close> is the buffer offset, the lower word and
  the upper word.  One step is the pair of statements
  \<^verbatim>\<open>lower_word += buffer[ buffer_offset++ ]; upper_word += lower_word;\<close>
  on 32-bit unsigned integers.
\<close>

definition adler32_byte ::
  "8 word list \<Rightarrow> nat \<times> 32 word \<times> 32 word \<Rightarrow> nat \<times> 32 word \<times> 32 word" where
  "adler32_byte buffer s =
     (case s of (buffer_offset, lower_word, upper_word) \<Rightarrow>
        let lower_word = lower_word + ucast (buffer ! buffer_offset);
            upper_word = upper_word + lower_word
        in (buffer_offset + 1, lower_word, upper_word))"

text \<open>The source unrolls the step sixteen times.\<close>

definition adler32_bytes16 ::
  "8 word list \<Rightarrow> nat \<times> 32 word \<times> 32 word \<Rightarrow> nat \<times> 32 word \<times> 32 word" where
  "adler32_bytes16 buffer s = (adler32_byte buffer ^^ 16) s"

text \<open>The "optimized equivalent" of \<^verbatim>\<open>% 0xfff1\<close>.\<close>

definition adler32_fold :: "32 word \<Rightarrow> 32 word" where
  "adler32_fold w =
     (let value_32bit = drop_bit 16 w;
          w = w AND 0x0000ffff
      in w + (push_bit 4 value_32bit - value_32bit))"

definition adler32_modulo :: "32 word \<Rightarrow> 32 word" where
  "adler32_modulo w =
     (let w = adler32_fold w;
          w = (if w > 65521 then adler32_fold w else w)
      in if w \<ge> 65521 then w - 65521 else w)"

text \<open>The \<^verbatim>\<open>while( size >= 0x15b0 )\<close> loop: 347 rounds of sixteen bytes, then the two
  reductions.\<close>

function adler32_blocks ::
  "8 word list \<Rightarrow> nat \<Rightarrow> nat \<times> 32 word \<times> 32 word \<Rightarrow> nat \<times> nat \<times> 32 word \<times> 32 word" where
  "adler32_blocks buffer size' s =
     (if size' \<ge> 0x15b0 then
        case (adler32_bytes16 buffer ^^ 347) s of
          (buffer_offset, lower_word, upper_word) \<Rightarrow>
            adler32_blocks buffer (size' - 0x15b0)
              (buffer_offset, adler32_modulo lower_word, adler32_modulo upper_word)
      else (size', s))"
  by pat_completeness auto
termination
  by (relation "measure (\<lambda>(b, size', s). size')") auto

declare adler32_blocks.simps [simp del]

text \<open>The \<^verbatim>\<open>while( size > 16 )\<close> loop.\<close>

function adler32_rest16 ::
  "8 word list \<Rightarrow> nat \<Rightarrow> nat \<times> 32 word \<times> 32 word \<Rightarrow> nat \<times> nat \<times> 32 word \<times> 32 word" where
  "adler32_rest16 buffer size' s =
     (if size' > 16 then adler32_rest16 buffer (size' - 16) (adler32_bytes16 buffer s)
      else (size', s))"
  by pat_completeness auto
termination
  by (relation "measure (\<lambda>(b, size', s). size')") auto

declare adler32_rest16.simps [simp del]

text \<open>The \<^verbatim>\<open>while( size > 0 )\<close> loop.\<close>

fun adler32_rest :: "8 word list \<Rightarrow> nat \<Rightarrow> nat \<times> 32 word \<times> 32 word \<Rightarrow> nat \<times> 32 word \<times> 32 word" where
  "adler32_rest buffer 0 s = s"
| "adler32_rest buffer (Suc size') s = adler32_rest buffer size' (adler32_byte buffer s)"

definition deflate_calculate_adler32 :: "8 word list \<Rightarrow> nat \<Rightarrow> 32 word \<Rightarrow> error + 32 word" where
  "deflate_calculate_adler32 buffer size' initial_value =
     (if size' > SSIZE_MAX then Inl InvalidArgument
      else
        let lower_word = initial_value AND 0xffff;
            upper_word = drop_bit 16 initial_value AND 0xffff
        in
          case adler32_blocks buffer size' (0, lower_word, upper_word) of
            (size', s) \<Rightarrow>
              case (if size' > 0 then
                      case adler32_rest16 buffer size' s of
                        (size', s) \<Rightarrow>
                          case adler32_rest buffer size' s of
                            (buffer_offset, lower_word, upper_word) \<Rightarrow>
                              (buffer_offset, adler32_modulo lower_word,
                               adler32_modulo upper_word)
                    else s) of
                (buffer_offset, lower_word, upper_word) \<Rightarrow>
                  Inr (push_bit 16 upper_word OR lower_word))"

section \<open>Decompressing a zlib stream\<close>

text \<open>\<^verbatim>\<open>byte_stream_copy_to_uint32_big_endian\<close>: four bytes, most significant first.\<close>

definition byte_stream_copy_to_uint32_big_endian :: "8 word list \<Rightarrow> nat \<Rightarrow> 32 word" where
  "byte_stream_copy_to_uint32_big_endian bytes i =
     push_bit 24 (ucast (bytes ! i))
     OR push_bit 16 (ucast (bytes ! (i + 1)))
     OR push_bit 8 (ucast (bytes ! (i + 2)))
     OR ucast (bytes ! (i + 3))"

text \<open>
  The first part of \<^verbatim>\<open>deflate_decompress\<close>: the zlib header.  It yields the bit stream
  that the block loop starts from and the preset dictionary identifier (0 when the
  header has none).  Both the offset and the size are adjusted by the length of the
  header.  \<^verbatim>\<open>deflate_decompress\<close> reaches this part only with a size of at least 2, and
  the 4 bytes of the identifier are taken off a size of at least 6: no subtraction of
  the \<^verbatim>\<open>size_t\<close> values wraps around.
\<close>

definition read_zlib_header :: "8 word list \<Rightarrow> nat \<Rightarrow> error + (deflate_bit_stream \<times> 32 word)" where
  "read_zlib_header compressed_data compressed_data_size =
     (let compressed_data_offset = 0 :: nat in
      if compressed_data_offset \<ge> compressed_data_size then Inl Truncated
      else
        let compression_method = compressed_data ! 0 AND 0x0f;
            compression_information = drop_bit 4 (compressed_data ! 0)
        in
          case (if compressed_data ! 1 AND 0x20 \<noteq> 0 then
                  if compressed_data_size < 6 then Inl Truncated
                  else Inr (byte_stream_copy_to_uint32_big_endian compressed_data 2,
                            compressed_data_offset + 4, compressed_data_size - 4)
                else Inr (0, compressed_data_offset, compressed_data_size)) of
            Inl e \<Rightarrow> Inl e
          | Inr (preset_dictionary_identifier, compressed_data_offset, compressed_data_size) \<Rightarrow>
              let compressed_data_offset = compressed_data_offset + 2;
                  compressed_data_size = compressed_data_size - 2
              in
                if compression_method \<noteq> 8 then Inl UnsupportedMethod
                else
                  let compression_window_bits = compression_information + 8;
                      compression_window_size =
                        (push_bit (unat compression_window_bits) 1 :: 32 word)
                  in
                    if compression_window_size > 32768 then Inl UnsupportedWindow
                    else if compressed_data_offset \<ge> compressed_data_size then Inl Truncated
                    else
                      Inr (\<lparr> byte_stream = compressed_data,
                             byte_stream_size = compressed_data_size,
                             byte_stream_offset = compressed_data_offset,
                             bit_buffer = 0,
                             bit_buffer_size = 0 \<rparr>,
                           preset_dictionary_identifier))"

text \<open>\<^verbatim>\<open>memory_copy\<close> of \<open>n\<close> bytes from \<open>src\<close> at \<open>j\<close> to \<open>dst\<close> at \<open>i\<close>.\<close>

definition memory_copy :: "8 word list \<Rightarrow> nat \<Rightarrow> 8 word list \<Rightarrow> nat \<Rightarrow> nat \<Rightarrow> 8 word list" where
  "memory_copy dst i src j n = take i dst @ take n (drop j src) @ drop (i + n) dst"

text \<open>
  \<^verbatim>\<open>case DEFLATE_BLOCK_TYPE_UNCOMPRESSED\<close>.  The source first stores the upper half of
  the 32 bits in \<^verbatim>\<open>block_size_copy\<close>, masks \<^verbatim>\<open>block_size\<close> to its lower half, and
  then recomputes \<^verbatim>\<open>block_size_copy\<close> from the masked \<^verbatim>\<open>block_size\<close>.
\<close>

definition decode_uncompressed_block ::
  "deflate_bit_stream \<Rightarrow> 8 word list \<Rightarrow> nat \<Rightarrow> nat
     \<Rightarrow> error + (deflate_bit_stream \<times> 8 word list \<times> nat)" where
  "decode_uncompressed_block bs uncompressed_data uncompressed_data_size
       uncompressed_data_offset =
     (let skip_bits = bit_buffer_size bs AND 0x07 in
      case (if skip_bits > 0 then deflate_bit_stream_get_value bs skip_bits
            else Inr (0, bs)) of
        Inl e \<Rightarrow> Inl e
      | Inr (value_32bit, bs) \<Rightarrow>
          case deflate_bit_stream_get_value bs 32 of
            Inl e \<Rightarrow> Inl e
          | Inr (block_size, bs) \<Rightarrow>
              let block_size_copy = drop_bit 16 block_size;
                  block_size = block_size AND 0x0000ffff;
                  block_size_copy = drop_bit 16 block_size XOR 0x0000ffff
              in
                if block_size \<noteq> block_size_copy then Inl LengthMismatch
                else if block_size = 0 then
                  Inr (bs, uncompressed_data, uncompressed_data_offset)
                else if unat block_size > byte_stream_size bs - byte_stream_offset bs
                then Inl Truncated
                else if unat block_size > uncompressed_data_size - uncompressed_data_offset
                then Inl OutputOverflow
                else
                  Inr (bs\<lparr> byte_stream_offset := byte_stream_offset bs + unat block_size,
                          bit_buffer := 0,
                          bit_buffer_size := 0 \<rparr>,
                       memory_copy uncompressed_data uncompressed_data_offset
                         (byte_stream bs) (byte_stream_offset bs) (unat block_size),
                       uncompressed_data_offset + unat block_size))"

text \<open>The \<^verbatim>\<open>switch( block_type )\<close>.\<close>

definition decode_block ::
  "8 word \<Rightarrow> deflate_bit_stream \<Rightarrow> deflate_huffman_table \<Rightarrow> deflate_huffman_table
     \<Rightarrow> 8 word list \<Rightarrow> nat \<Rightarrow> nat \<Rightarrow> error + (deflate_bit_stream \<times> 8 word list \<times> nat)" where
  "decode_block block_type bs fixed_huffman_literals_table fixed_huffman_distances_table
       uncompressed_data uncompressed_data_size uncompressed_data_offset =
     (if block_type = 0 then
        decode_uncompressed_block bs uncompressed_data uncompressed_data_size
          uncompressed_data_offset
      else if block_type = 1 then
        deflate_decode_huffman bs fixed_huffman_literals_table fixed_huffman_distances_table
          uncompressed_data uncompressed_data_size uncompressed_data_offset
      else if block_type = 2 then
        case deflate_initialize_dynamic_huffman_tables bs of
          Inl e \<Rightarrow> Inl e
        | Inr (dynamic_huffman_literals_table, dynamic_huffman_distances_table, bs) \<Rightarrow>
            deflate_decode_huffman bs dynamic_huffman_literals_table
              dynamic_huffman_distances_table uncompressed_data uncompressed_data_size
              uncompressed_data_offset
      else Inl InvalidBlockType)"

subsection \<open>The block loop terminates\<close>

lemma read_code_sizes_bits_left:
  "read_code_sizes bs n i a = Inr (a', bs') \<Longrightarrow> bits_left bs' \<le> bits_left bs"
proof (induction bs n i a rule: read_code_sizes.induct)
  case (1 bs n i a)
  show ?case
  proof (cases "i < n")
    case False
    with "1.prems" show ?thesis by (simp add: read_code_sizes.simps)
  next
    case True
    with "1.prems" obtain v bs1 where g: "deflate_bit_stream_get_value bs 3 = Inr (v, bs1)"
      and r: "read_code_sizes bs1 n (i + 1) (a [code_sizes_sequence ! i := ucast v]) = Inr (a', bs')"
      by (subst (asm) read_code_sizes.simps) (auto split: sum.splits)
    from "1.IH" [OF True g refl r] get_value_bits_left [OF g] show ?thesis by simp
  qed
qed

lemma get_times_to_repeat_bits_left:
  "get_times_to_repeat bs symbol i a = Inr (c, t, bs') \<Longrightarrow> bits_left bs' \<le> bits_left bs"
  by (auto simp: get_times_to_repeat_def split: if_splits sum.splits
           dest!: get_value_bits_left)

lemma decode_code_sizes_bits_left:
  "decode_code_sizes bs t n i a = Inr (a', bs') \<Longrightarrow> bits_left bs' \<le> bits_left bs"
proof (induction bs t n i a rule: decode_code_sizes.induct)
  case (1 bs t n i a)
  show ?case
  proof (cases "i < n")
    case False
    with "1.prems" show ?thesis by (simp add: decode_code_sizes.simps)
  next
    case True
    with "1.prems" obtain v bs1 where
      g: "deflate_bit_stream_get_huffman_encoded_value bs t = Inr (v, bs1)"
      by (subst (asm) decode_code_sizes.simps) (auto split: sum.splits)
    note lt = get_huffman_encoded_value_bits_left [OF g]
    show ?thesis
    proof (cases "v < 16")
      case v: True
      with "1.prems" True g
      have "decode_code_sizes bs1 t n (i + 1) (a [i := ucast v]) = Inr (a', bs')"
        by (subst (asm) decode_code_sizes.simps) simp
      from "1.IH"(1) [OF True g refl v this] lt show ?thesis by simp
    next
      case v: False
      with "1.prems" True g obtain c k bs2 where
        r: "get_times_to_repeat bs1 v i a = Inr (c, k, bs2)" and le: "\<not> n < i + k" and
        d: "decode_code_sizes bs2 t n (i + k) (fst (repeat_code_size a i (ucast c) k)) = Inr (a', bs')"
        by (subst (asm) decode_code_sizes.simps) (auto split: sum.splits if_splits)
      from "1.IH"(2) [OF True g refl v r refl refl le d] lt get_times_to_repeat_bits_left [OF r]
      show ?thesis by simp
    qed
  qed
qed

lemma initialize_dynamic_huffman_tables_bits_left:
  assumes "deflate_initialize_dynamic_huffman_tables bs = Inr (lt, dt, bs')"
  shows "bits_left bs' \<le> bits_left bs"
proof -
  from assms obtain v bs1 n1 a1 a2 bs2 ct n2 a3 a4 where
    1: "deflate_bit_stream_get_value bs 14 = Inr (v, bs1)" and
    2: "read_code_sizes bs1 n1 0 a1 = Inr (a2, bs2)" and
    3: "decode_code_sizes bs2 ct n2 0 a3 = Inr (a4, bs')"
    unfolding deflate_initialize_dynamic_huffman_tables_def Let_def
    by (auto split: sum.splits if_splits)
  from get_value_bits_left [OF 1] read_code_sizes_bits_left [OF 2]
    decode_code_sizes_bits_left [OF 3]
  show ?thesis by simp
qed

lemma decode_huffman_loop_bits_left:
  "decode_huffman_loop bs lt dt out cap off = Inr (bs', out', off') \<Longrightarrow>
   bits_left bs' \<le> bits_left bs"
proof (induction bs lt dt out cap off rule: decode_huffman_loop.induct)
  case (1 bs lt dt out cap off)
  from "1.prems" obtain v bs1 where
    g: "deflate_bit_stream_get_huffman_encoded_value bs lt = Inr (v, bs1)"
    by (subst (asm) decode_huffman_loop.simps) (auto split: sum.splits)
  note lt = get_huffman_encoded_value_bits_left [OF g]
  consider (lit) "v < 256" | (match) "\<not> v < 256" "v > 256 \<and> v < 286" | (eob) "v = 256"
    using "1.prems" g
    by (subst (asm) decode_huffman_loop.simps) (auto split: if_splits)
  then show ?case
  proof cases
    case lit
    with "1.prems" g have c: "\<not> cap \<le> off" and
      r: "decode_huffman_loop bs1 lt dt (out [off := ucast v]) cap (off + 1) = Inr (bs', out', off')"
      by (subst (asm) decode_huffman_loop.simps, simp split: if_splits)+
    from "1.IH"(1) [OF g refl lit c r] lt show ?thesis by simp
  next
    case match
    with "1.prems" g obtain bs2 out2 off2 where
      m: "decode_match bs1 dt v out cap off = Inr (bs2, out2, off2)" and
      r: "decode_huffman_loop bs2 lt dt out2 cap off2 = Inr (bs', out', off')"
      by (subst (asm) decode_huffman_loop.simps) (auto split: sum.splits)
    from "1.IH"(2) [OF g refl match m refl refl r] lt decode_match_bits_left [OF m]
    show ?thesis by simp
  next
    case eob
    with "1.prems" g have "bs' = bs1"
      by (subst (asm) decode_huffman_loop.simps) simp
    with lt show ?thesis by simp
  qed
qed

lemma and_7_eq_mod_8: "(n :: nat) AND 0x07 = n mod 8"
proof -
  have "n AND mask 3 = n mod 2 ^ 3" by (simp only: take_bit_eq_mask [symmetric] take_bit_eq_mod)
  then show ?thesis by (simp add: mask_eq_exp_minus_1)
qed

lemma skip_bits_bits_left:
  "(if k > 0 then deflate_bit_stream_get_value bs k else Inr (0, bs)) = Inr (v, bs') \<Longrightarrow>
   bits_left bs' \<le> bits_left bs"
  by (auto split: if_splits dest!: get_value_bits_left)

lemma decode_uncompressed_block_bits_left:
  assumes "decode_uncompressed_block bs out cap off = Inr (bs', out', off')"
  shows "bits_left bs' \<le> bits_left bs"
proof -
  let ?k = "bit_buffer_size bs AND 0x07"
  from assms obtain v1 bs1 where
    1: "(if ?k > 0 then deflate_bit_stream_get_value bs ?k else Inr (0, bs)) = Inr (v1, bs1)"
    unfolding decode_uncompressed_block_def Let_def
    by (cases "if ?k > 0 then deflate_bit_stream_get_value bs ?k else Inr (0, bs)") auto
  from assms 1 obtain v2 bs2 where
    2: "deflate_bit_stream_get_value bs1 32 = Inr (v2, bs2)"
    unfolding decode_uncompressed_block_def Let_def
    by (cases "deflate_bit_stream_get_value bs1 32") auto
  from assms 1 2 have
    3: "bs' = bs2 \<or> bs' = bs2\<lparr> byte_stream_offset := byte_stream_offset bs2 + unat (v2 AND 0x0000ffff),
                     bit_buffer := 0, bit_buffer_size := 0 \<rparr>
                  \<and> unat (v2 AND 0x0000ffff) \<le> byte_stream_size bs2 - byte_stream_offset bs2"
    unfolding decode_uncompressed_block_def Let_def
    by (simp split: if_splits)
  from skip_bits_bits_left [OF 1] have "bits_left bs1 \<le> bits_left bs" .
  moreover from get_value_bits_left [OF 2] have "bits_left bs2 \<le> bits_left bs1" by simp
  moreover from 3 have "bits_left bs' \<le> bits_left bs2" by (auto simp: bits_left_def)
  ultimately show ?thesis by simp
qed

lemma decode_block_bits_left:
  assumes "decode_block block_type bs flt fdt out cap off = Inr (bs', out', off')"
  shows "bits_left bs' \<le> bits_left bs"
  using assms
  by (auto simp: decode_block_def deflate_decode_huffman_def
           split: if_splits sum.splits
           dest!: decode_uncompressed_block_bits_left decode_huffman_loop_bits_left
                  initialize_dynamic_huffman_tables_bits_left)

subsection \<open>The block loop and the checksum\<close>

text \<open>
  The \<^verbatim>\<open>while( bit_stream.byte_stream_offset < bit_stream.byte_stream_size )\<close> loop of
  \<^verbatim>\<open>deflate_decompress\<close>, left through \<^verbatim>\<open>break\<close> after the last block.
\<close>

function decode_blocks ::
  "deflate_bit_stream \<Rightarrow> deflate_huffman_table \<Rightarrow> deflate_huffman_table \<Rightarrow> 8 word list
     \<Rightarrow> nat \<Rightarrow> nat \<Rightarrow> error + (deflate_bit_stream \<times> 8 word list \<times> nat)" where
  "decode_blocks bs fixed_huffman_literals_table fixed_huffman_distances_table
       uncompressed_data uncompressed_data_size uncompressed_data_offset =
     (if byte_stream_offset bs < byte_stream_size bs then
        case deflate_bit_stream_get_value bs 3 of
          Inl e \<Rightarrow> Inl e
        | Inr (value_32bit, bs) \<Rightarrow>
            case decode_block (ucast (drop_bit 1 value_32bit)) bs
                   fixed_huffman_literals_table fixed_huffman_distances_table
                   uncompressed_data uncompressed_data_size uncompressed_data_offset of
              Inl e \<Rightarrow> Inl e
            | Inr (bs, uncompressed_data, uncompressed_data_offset) \<Rightarrow>
                if (ucast (value_32bit AND 0x00000001) :: 8 word) \<noteq> 0 then
                  Inr (bs, uncompressed_data, uncompressed_data_offset)
                else
                  decode_blocks bs fixed_huffman_literals_table fixed_huffman_distances_table
                    uncompressed_data uncompressed_data_size uncompressed_data_offset
      else Inr (bs, uncompressed_data, uncompressed_data_offset))"
  by pat_completeness auto
termination
proof (relation "measure (\<lambda>(bs, lt, dt, out, cap, off). bits_left bs)", goal_cases)
  case 1
  show ?case by simp
next
  case (2 bs flt fdt out cap off x2 x y x2a xa ya xb yb)
  then have a: "deflate_bit_stream_get_value bs 3 = Inr (x, y)"
    and b: "decode_block (ucast (drop_bit 1 x)) y flt fdt out cap off = Inr (xa, xb, yb)"
    by simp_all
  from get_value_bits_left [OF a] decode_block_bits_left [OF b]
  show ?case by simp
qed

declare decode_blocks.simps [simp del]

text \<open>The \<^verbatim>\<open>while( bit_stream.bit_buffer_size >= 8 )\<close> loop that gives whole buffered
  bytes back to the byte stream.\<close>

function unread_bytes :: "deflate_bit_stream \<Rightarrow> deflate_bit_stream" where
  "unread_bytes bs =
     (if bit_buffer_size bs \<ge> 8 then
        unread_bytes (bs\<lparr> byte_stream_offset := byte_stream_offset bs - 1,
                            bit_buffer_size := bit_buffer_size bs - 8 \<rparr>)
      else bs)"
  by pat_completeness auto
termination
  by (relation "measure bit_buffer_size") auto

declare unread_bytes.simps [simp del]

text \<open>The checksum test after the block loop.  It is only made when at least four bytes
  lie between the offset and the size of the bit stream.\<close>

definition verify_checksum :: "deflate_bit_stream \<Rightarrow> 8 word list \<Rightarrow> nat \<Rightarrow> error + unit" where
  "verify_checksum bs uncompressed_data uncompressed_data_offset =
     (if byte_stream_size bs - byte_stream_offset bs \<ge> 4 then
        let bs = unread_bytes bs;
            stored_checksum =
              byte_stream_copy_to_uint32_big_endian (byte_stream bs) (byte_stream_offset bs)
        in
          case deflate_calculate_adler32 uncompressed_data uncompressed_data_offset 1 of
            Inl e \<Rightarrow> Inl e
          | Inr calculated_checksum \<Rightarrow>
              if stored_checksum \<noteq> calculated_checksum then Inl ChecksumMismatch
              else Inr ()
      else Inr ())"

text \<open>
  \<^verbatim>\<open>deflate_decompress\<close>.  On success the result is the output buffer and the value
  stored to \<^verbatim>\<open>*uncompressed_data_size\<close>, the number of bytes produced.
\<close>

definition deflate_decompress ::
  "8 word list \<Rightarrow> nat \<Rightarrow> 8 word list \<Rightarrow> nat \<Rightarrow> error + (8 word list \<times> nat)" where
  "deflate_decompress compressed_data compressed_data_size uncompressed_data
       uncompressed_data_size =
     (if compressed_data_size < 2 then Inl Truncated
      else if compressed_data_size > SSIZE_MAX then Inl InvalidArgument
      else if uncompressed_data_size > SSIZE_MAX then Inl InvalidArgument
      else
        case read_zlib_header compressed_data compressed_data_size of
          Inl e \<Rightarrow> Inl e
        | Inr (bs, preset_dictionary_identifier) \<Rightarrow>
            case deflate_initialize_fixed_huffman_tables of
              Inl e \<Rightarrow> Inl e
            | Inr (fixed_huffman_literals_table, fixed_huffman_distances_table) \<Rightarrow>
                case decode_blocks bs fixed_huffman_literals_table
                       fixed_huffman_distances_table uncompressed_data
                       uncompressed_data_size 0 of
                  Inl e \<Rightarrow> Inl e
                | Inr (bs, uncompressed_data, uncompressed_data_offset) \<Rightarrow>
                    case verify_checksum bs uncompressed_data uncompressed_data_offset of
                      Inl e \<Rightarrow> Inl e
                    | Inr u \<Rightarrow> Inr (uncompressed_data, uncompressed_data_offset))"

section \<open>The bit stream reader returns the next bits\<close>

text \<open>
  The stream that a bit stream state stands for, in the words of the specification: the
  buffered bits of the register, least significant first, followed by the bits of the
  unread bytes, each byte least significant bit first.  \<open>bits_value\<close> reads a list
  of bits with the first bit as bit 0.  A state is \<open>register_clean\<close> when the register
  holds at most 32 bits and nothing above them.
\<close>

definition byte_bits :: "8 word \<Rightarrow> bool list" where
  "byte_bits b = map (bit b) [0..<8]"

definition pending_bits :: "deflate_bit_stream \<Rightarrow> bool list" where
  "pending_bits bs =
     map (bit (bit_buffer bs)) [0..<bit_buffer_size bs]
     @ concat (map byte_bits (drop (byte_stream_offset bs) (take (byte_stream_size bs) (byte_stream bs))))"

definition bits_value :: "bool list \<Rightarrow> 32 word" where
  "bits_value bits = horner_sum of_bool 2 bits"

definition register_clean :: "deflate_bit_stream \<Rightarrow> bool" where
  "register_clean bs = (bit_buffer_size bs \<le> 32 \<and> take_bit (bit_buffer_size bs) (bit_buffer bs) = bit_buffer bs)"

lemma length_byte_bits [simp]: "length (byte_bits b) = 8"
  by (simp add: byte_bits_def)

lemma length_concat_byte_bits [simp]: "length (concat (map byte_bits xs)) = 8 * length xs"
  by (induction xs) simp_all

lemma length_pending_bits:
  "byte_stream_size bs \<le> length (byte_stream bs) \<Longrightarrow>
   length (pending_bits bs) = bit_buffer_size bs + 8 * (byte_stream_size bs - byte_stream_offset bs)"
  by (simp add: pending_bits_def)

text \<open>
  The refill loop is followed through the invariant \<open>tracks P bs\<close>: the bits of the
  register below position 32 are the first \<open>bit_buffer_size bs\<close> bits of the fixed list
  \<open>P\<close>, and the rest of \<open>P\<close> is what the unread bytes hold.
\<close>

definition tracks :: "bool list \<Rightarrow> deflate_bit_stream \<Rightarrow> bool" where
  "tracks P bs = ((\<forall>i<32. bit (bit_buffer bs) i = (i < bit_buffer_size bs \<and> P ! i))
     \<and> bit_buffer_size bs \<le> length P
     \<and> drop (bit_buffer_size bs) P = concat (map byte_bits (drop (byte_stream_offset bs) (take (byte_stream_size bs) (byte_stream bs)))))"

lemma tracks_refill:
  assumes "tracks P bs" "byte_stream_offset bs < byte_stream_size bs" "byte_stream_size bs \<le> length (byte_stream bs)"
  shows "tracks P (refill bs)"
proof -
  let ?s = "bit_buffer_size bs" and ?o = "byte_stream_offset bs"
  let ?b = "byte_stream bs ! ?o"
  let ?rest = "drop ?o (take (byte_stream_size bs) (byte_stream bs))"
  have rest: "?rest = ?b # drop (Suc ?o) (take (byte_stream_size bs) (byte_stream bs))"
    using assms(2,3) by (simp add: Cons_nth_drop_Suc [symmetric])
  from assms(1) have dropP: "drop ?s P = byte_bits ?b @ concat (map byte_bits (drop (Suc ?o) (take (byte_stream_size bs) (byte_stream bs))))"
    unfolding tracks_def rest by simp
  have len: "?s + 8 \<le> length P"
  proof -
    have "length (drop ?s P) \<ge> 8" unfolding dropP by simp
    then show ?thesis by simp
  qed
  have nth: "P ! (?s + j) = bit ?b j" if "j < 8" for j
  proof -
    have "P ! (?s + j) = drop ?s P ! j" using len that by simp
    also have "\<dots> = byte_bits ?b ! j" unfolding dropP using that by (simp add: nth_append)
    also have "\<dots> = bit ?b j" using that by (simp add: byte_bits_def)
    finally show ?thesis .
  qed
  have drop': "drop (?s + 8) P = concat (map byte_bits (drop (Suc ?o) (take (byte_stream_size bs) (byte_stream bs))))"
  proof -
    have "drop (?s + 8) P = drop 8 (drop ?s P)" by (simp add: add.commute)
    then show ?thesis unfolding dropP by simp
  qed
  have bits: "bit (bit_buffer (refill bs)) i = (i < ?s + 8 \<and> P ! i)" if "i < 32" for i
  proof (cases "i < ?s")
    case True
    then show ?thesis using assms(1) that
      by (auto simp: tracks_def refill_def bit_or_iff bit_push_bit_iff)
  next
    case False
    then obtain j where j: "i = ?s + j" by (metis le_add_diff_inverse not_less)
    have old: "\<not> bit (bit_buffer bs) i" using assms(1) that False by (simp add: tracks_def)
    show ?thesis
    proof (cases "j < 8")
      case True
      then show ?thesis using old that nth[OF True] j
        by (auto simp: refill_def bit_or_iff bit_push_bit_iff bit_ucast_iff)
    next
      case False
      then have "\<not> bit (ucast ?b :: 32 word) j"
        by (auto simp: bit_ucast_iff dest: bit_imp_le_length)
      then show ?thesis using old that False j
        by (auto simp: refill_def bit_or_iff bit_push_bit_iff)
    qed
  qed
  show ?thesis
    unfolding tracks_def
    using bits len drop' by (simp add: refill_def)
qed


lemma tracks_initial:
  "register_clean bs \<Longrightarrow> tracks (pending_bits bs) bs"
  unfolding tracks_def register_clean_def pending_bits_def
  apply (auto simp: nth_append)
   apply (metis bit_take_bit_iff)
  done

lemma fill_tracks:
  "tracks P bs \<Longrightarrow> byte_stream_size bs \<le> length (byte_stream bs) \<Longrightarrow>
   get_value_fill bs n = Inr bs1 \<Longrightarrow>
   tracks P bs1 \<and> n \<le> bit_buffer_size bs1 \<and> byte_stream bs1 = byte_stream bs
     \<and> byte_stream_size bs1 = byte_stream_size bs"
proof (induction bs n rule: get_value_fill.induct)
  case (1 bs n)
  show ?case
  proof (cases "bit_buffer_size bs < n")
    case False
    with "1.prems" show ?thesis by (simp add: get_value_fill.simps)
  next
    case True
    with "1.prems"(3) have lt: "byte_stream_offset bs < byte_stream_size bs"
      and rec: "get_value_fill (refill bs) n = Inr bs1"
      by (auto simp: get_value_fill.simps [of bs] split: if_splits)
    have "tracks P (refill bs)" using tracks_refill "1.prems" lt by blast
    moreover have "byte_stream_size (refill bs) \<le> length (byte_stream (refill bs))"
      using "1.prems"(2) by (simp add: refill_def)
    ultimately show ?thesis
      using "1.IH" [OF True _ _ _ rec] lt by (simp add: refill_def)
  qed
qed

lemma fill_fails:
  "get_value_fill bs n = Inl e \<longleftrightarrow>
     e = Truncated \<and> bit_buffer_size bs + 8 * (byte_stream_size bs - byte_stream_offset bs) < n"
proof (induction bs n rule: get_value_fill.induct)
  case (1 bs n)
  show ?case
  proof (cases "bit_buffer_size bs < n \<and> byte_stream_offset bs < byte_stream_size bs")
    case True
    then show ?thesis
      using "1.IH" by (subst get_value_fill.simps) (auto simp: refill_def)
  next
    case False
    then show ?thesis
      by (subst get_value_fill.simps) auto
  qed
qed

lemma bit_bits_value:
  "bit (bits_value bits) i \<longleftrightarrow> i < 32 \<and> i < length bits \<and> bits ! i"
  by (auto simp: bits_value_def bit_horner_sum_bit_iff dest: bit_imp_le_length)

lemma low_mask: "n < 32 \<Longrightarrow> (w :: 32 word) AND NOT (push_bit n 0xffffffff) = take_bit n w"
proof -
  have m: "(0xffffffff :: 32 word) = - 1" by simp
  show ?thesis if "n < 32"
    unfolding m using that
    by (intro bit_word_eqI) (auto simp: bit_and_iff bit_not_iff bit_push_bit_iff bit_take_bit_iff bit_mask_iff)
qed

text \<open>
  Claim C8.  For a clean bit stream state and \<open>n \<le> 32\<close>,
  \<^verbatim>\<open>deflate_bit_stream_get_value\<close> returns 0 and leaves the state alone when
  \<open>n = 0\<close>; it fails when the buffered bits and the unread bytes together hold fewer than
  \<open>n\<close> bits; otherwise it returns the next \<open>n\<close> bits of the stream, the first bit
  read being bit 0 of the result.  For \<open>n = 32\<close> the whole register is the result,
  without a mask, and the register and its count are set to zero.
\<close>

theorem get_value_returns_next_bits:
  assumes "n \<le> 32" "register_clean bs" "byte_stream_size bs \<le> length (byte_stream bs)"
  shows "(n = 0 \<longrightarrow> deflate_bit_stream_get_value bs n = Inr (0, bs))
     \<and> (length (pending_bits bs) < n \<longrightarrow> deflate_bit_stream_get_value bs n = Inl Truncated)
     \<and> (n \<le> length (pending_bits bs) \<longrightarrow>
          (\<exists>bs'. deflate_bit_stream_get_value bs n = Inr (bits_value (take n (pending_bits bs)), bs')
             \<and> (n = 32 \<longrightarrow> bit_buffer bs' = 0 \<and> bit_buffer_size bs' = 0)))
     \<and> (n = 32 \<longrightarrow> deflate_bit_stream_get_value bs n =
          (case get_value_fill bs 32 of Inl e \<Rightarrow> Inl e
           | Inr bs1 \<Rightarrow> Inr (bit_buffer bs1, bs1\<lparr> bit_buffer := 0, bit_buffer_size := 0 \<rparr>)))"
proof -
  let ?P = "pending_bits bs"
  have len: "length ?P = bit_buffer_size bs + 8 * (byte_stream_size bs - byte_stream_offset bs)"
    using assms(3) by (rule length_pending_bits)
  have zero: "n = 0 \<Longrightarrow> deflate_bit_stream_get_value bs n = Inr (0, bs)"
    by (simp add: deflate_bit_stream_get_value_def)
  have short: "deflate_bit_stream_get_value bs n = Inl Truncated" if "length ?P < n"
  proof -
    have "get_value_fill bs n = Inl Truncated" using that len by (simp add: fill_fails)
    then show ?thesis using that assms(1) by (simp add: deflate_bit_stream_get_value_def)
  qed
  have enough: "\<exists>bs'. deflate_bit_stream_get_value bs n = Inr (bits_value (take n ?P), bs')
             \<and> (n = 32 \<longrightarrow> bit_buffer bs' = 0 \<and> bit_buffer_size bs' = 0)" if "n \<le> length ?P"
  proof (cases "n = 0")
    case True
    then show ?thesis by (simp add: deflate_bit_stream_get_value_def bits_value_def)
  next
    case False
    have "get_value_fill bs n \<noteq> Inl e" for e
      using that len by (simp add: fill_fails)
    then obtain bs1 where fill: "get_value_fill bs n = Inr bs1"
      by (cases "get_value_fill bs n") blast+
    have tr: "tracks ?P bs1" and ge: "n \<le> bit_buffer_size bs1"
      using fill_tracks [OF tracks_initial [OF assms(2)] assms(3) fill] by simp_all
    have val: "take_bit n (bit_buffer bs1) = bits_value (take n ?P)"
    proof (rule bit_word_eqI)
      fix i assume "i < LENGTH(32)"
      then have "bit (bit_buffer bs1) i = (i < bit_buffer_size bs1 \<and> ?P ! i)"
        using tr by (simp add: tracks_def)
      then show "bit (take_bit n (bit_buffer bs1)) i = bit (bits_value (take n ?P)) i"
        using ge that \<open>i < LENGTH(32)\<close> by (auto simp: bit_take_bit_iff bit_bits_value)
    qed
    show ?thesis
    proof (cases "n < 32")
      case True
      then show ?thesis using False fill val
        by (simp add: deflate_bit_stream_get_value_def low_mask)
    next
      case False
      then have n: "n = 32" using assms(1) by simp
      have "take_bit n (bit_buffer bs1) = bit_buffer bs1" unfolding n
        by (simp add: take_bit_word_eq_self)
      then show ?thesis using fill val n
        by (simp add: deflate_bit_stream_get_value_def)
    qed
  qed
  have whole: "n = 32 \<Longrightarrow> deflate_bit_stream_get_value bs n =
          (case get_value_fill bs 32 of Inl e \<Rightarrow> Inl e
           | Inr bs1 \<Rightarrow> Inr (bit_buffer bs1, bs1\<lparr> bit_buffer := 0, bit_buffer_size := 0 \<rparr>))"
    by (simp add: deflate_bit_stream_get_value_def split: sum.splits)
  show ?thesis
    apply (intro conjI impI)
    subgoal by (rule zero)
    subgoal by (rule short)
    subgoal by (rule enough)
    subgoal by (rule whole)
    done
qed


text \<open>The first three bits of the byte \<open>0xB5\<close> are 1, 0, 1: the value 5.\<close>

theorem get_value_returns_next_bits_witness:
  "register_clean \<lparr>byte_stream = [0xB5, 0x01], byte_stream_size = 2, byte_stream_offset = 0,
       bit_buffer = 0, bit_buffer_size = 0\<rparr>
   \<and> (\<exists>bs'. deflate_bit_stream_get_value
         \<lparr>byte_stream = [0xB5, 0x01], byte_stream_size = 2, byte_stream_offset = 0,
          bit_buffer = 0, bit_buffer_size = 0\<rparr> 3 = Inr (5, bs'))"
proof -
  let ?bs = "\<lparr>byte_stream = [0xB5, 0x01 :: 8 word], byte_stream_size = 2, byte_stream_offset = 0,
       bit_buffer = 0 :: 32 word, bit_buffer_size = 0\<rparr>"
  have c: "register_clean ?bs" by (simp add: register_clean_def)
  have l: "byte_stream_size ?bs \<le> length (byte_stream ?bs)" by simp
  have p: "take 3 (pending_bits ?bs) = [True, False, True]"
    by (simp add: pending_bits_def byte_bits_def upt_rec bit_numeral_rec)
  have v: "bits_value [True, False, True] = 5" by (simp add: bits_value_def)
  have n: "3 \<le> length (pending_bits ?bs)" by (simp add: length_pending_bits)
  from get_value_returns_next_bits [of 3 ?bs, OF _ c l] n p v c
  show ?thesis by simp
qed


section \<open>The Huffman table builder\<close>

text \<open>
  The quantities of the specification, for a vector \<open>lens\<close> of code sizes:
  \<open>code_count lens k\<close> is the number of codes of size \<open>k\<close>; \<open>left_after lens k\<close> is
  the value of \<open>left\<close> after the step \<open>k\<close> of the iteration
  \<open>left = 2 * left - count[len]\<close> started from 1; \<open>first_offset lens k\<close> is the offset
  of the first symbol of size \<open>k\<close> in the sorted symbol table; \<open>symbols_of_size lens k\<close>
  lists the symbols of size \<open>k\<close> in ascending order.
\<close>

definition code_count :: "16 word list \<Rightarrow> nat \<Rightarrow> nat" where
  "code_count lens k = length (filter (\<lambda>c. unat c = k) lens)"

fun left_after :: "16 word list \<Rightarrow> nat \<Rightarrow> int" where
  "left_after lens 0 = 1"
| "left_after lens (Suc k) = 2 * left_after lens k - int (code_count lens (Suc k))"

fun first_offset :: "16 word list \<Rightarrow> nat \<Rightarrow> nat" where
  "first_offset lens 0 = 0"
| "first_offset lens (Suc 0) = 0"
| "first_offset lens (Suc (Suc k)) = first_offset lens (Suc k) + code_count lens (Suc k)"

definition symbols_of_size :: "16 word list \<Rightarrow> nat \<Rightarrow> nat list" where
  "symbols_of_size lens k = filter (\<lambda>s. unat (lens ! s) = k) [0..<length lens]"

lemma code_count_snoc:
  "code_count (xs @ [c]) k = code_count xs k + (if unat c = k then 1 else 0)"
  by (simp add: code_count_def)

lemma take_Suc_snoc: "i < length xs \<Longrightarrow> take (Suc i) xs = take i xs @ [xs ! i]"
  by (simp add: take_Suc_conv_app_nth)


definition histogram_of :: "16 word list \<Rightarrow> int list" where
  "histogram_of lens = map (\<lambda>k. int (code_count lens k)) [0..<16]"

lemma histogram_of_snoc:
  "unat c < 16 \<Longrightarrow>
   histogram_of (xs @ [c]) = (histogram_of xs) [unat c := histogram_of xs ! unat c + 1]"
  by (rule nth_equalityI) (auto simp: histogram_of_def code_count_snoc nth_list_update)

lemma count_code_sizes_histogram:
  assumes "n \<le> length lens" "\<forall>c\<in>set (take n lens). unat c \<le> 15"
    "symbol \<le> n" "code_counts_array table = histogram_of (take symbol lens)"
    "number_of_codes table = 16"
  shows "count_code_sizes lens n symbol table
         = Inr (table\<lparr> code_counts_array := histogram_of (take n lens) \<rparr>)"
  using assms
proof (induction lens n symbol table rule: count_code_sizes.induct)
  case (1 lens n symbol table)
  show ?case
  proof (cases "symbol < n")
    case False
    with "1.prems" have "symbol = n" by simp
    with "1.prems" show ?thesis by (subst count_code_sizes.simps) simp
  next
    case True
    let ?c = "lens ! symbol"
    have "symbol < length (take n lens)" using True "1.prems"(1) by simp
    then have "take n lens ! symbol \<in> set (take n lens)" by (rule nth_mem)
    then have inset: "?c \<in> set (take n lens)" using True by simp
    then have c15: "unat ?c \<le> 15" using "1.prems"(2) by blast
    have len: "\<not> length lens \<le> symbol" using True "1.prems"(1) by simp
    have u: "\<not> uint ?c > 16" using c15 unfolding unat_eq_nat_uint by linarith
    let ?t = "table\<lparr> code_counts_array :=
                    (code_counts_array table) [unat ?c := code_counts_array table ! unat ?c + 1] \<rparr>"
    have h: "code_counts_array ?t = histogram_of (take (symbol + 1) lens)"
      using "1.prems"(4) c15 len by (simp add: take_Suc_snoc histogram_of_snoc)
    have "count_code_sizes lens n symbol table = count_code_sizes lens n (symbol + 1) ?t"
      using True len u c15 "1.prems"(5) by (subst count_code_sizes.simps) (simp add: Let_def)
    also have "\<dots> = Inr (?t\<lparr> code_counts_array := histogram_of (take n lens) \<rparr>)"
      using "1.IH" [OF True _ refl _ _ "1.prems"(1,2) _ h] True len u c15 "1.prems"(5)
      by simp
    finally show ?thesis by simp
  qed
qed


lemma histogram_of_nth: "k < 16 \<Longrightarrow> histogram_of lens ! k = int (code_count lens k)"
  by (simp add: histogram_of_def)

lemma length_histogram_of [simp]: "length (histogram_of lens) = 16"
  by (simp add: histogram_of_def)

lemma check_left_value_eq:
  assumes "code_counts_array table = histogram_of L" "maximum_number_of_bits table = 15"
    "1 \<le> b" "b \<le> 16" "left = left_after L (b - 1)"
  shows "check_left_value table b left =
         (if \<exists>k. b \<le> k \<and> k \<le> 15 \<and> left_after L k < 0 then Inl OverSubscribed
          else Inr (left_after L 15))"
  using assms
proof (induction table b left rule: check_left_value.induct)
  case (1 table b left)
  show ?case
  proof (cases "b \<le> 15")
    case False
    with "1.prems" have "b = 16" by simp
    with "1.prems" show ?thesis by (subst check_left_value.simps) auto
  next
    case True
    obtain b' where b: "b = Suc b'" using "1.prems"(3) by (cases b) auto
    have cnt: "code_counts_array table ! b = int (code_count L b)"
      using "1.prems"(1) True by (simp add: histogram_of_nth)
    have "left = left_after L b'" using "1.prems"(5) b by simp
    then have new: "push_bit 1 left - code_counts_array table ! b = left_after L b"
      unfolding cnt unfolding b by (simp add: push_bit_eq_mult)
    show ?thesis
    proof (cases "left_after L b < 0")
      case neg: True
      then have "\<exists>k. b \<le> k \<and> k \<le> 15 \<and> left_after L k < 0" using True by blast
      moreover have "check_left_value table b left = Inl OverSubscribed"
        using True neg new "1.prems"(2) by (subst check_left_value.simps) (simp add: Let_def)
      ultimately show ?thesis by simp
    next
      case nonneg: False
      have step: "check_left_value table b left = check_left_value table (b + 1) (left_after L b)"
        using True nonneg new "1.prems"(2) by (subst check_left_value.simps) (simp add: Let_def)
      have p1: "b \<le> maximum_number_of_bits table" using True "1.prems"(2) by simp
      have p2: "left_after L b = push_bit 1 left - code_counts_array table ! b"
        using new by simp
      have p3: "1 \<le> b + 1" "b + 1 \<le> 16" using True by simp_all
      have p4: "left_after L b = left_after L (b + 1 - 1)" by simp
      have ih: "check_left_value table (b + 1) (left_after L b) =
         (if \<exists>k. b + 1 \<le> k \<and> k \<le> 15 \<and> left_after L k < 0 then Inl OverSubscribed
          else Inr (left_after L 15))"
        by (rule "1.IH" [OF p1 p2 nonneg "1.prems"(1,2) p3 p4])
      have "(\<exists>k. b \<le> k \<and> k \<le> 15 \<and> left_after L k < 0) \<longleftrightarrow>
            (\<exists>k. b + 1 \<le> k \<and> k \<le> 15 \<and> left_after L k < 0)" (is "?A \<longleftrightarrow> ?B")
      proof
        assume ?A
        then obtain k where k: "b \<le> k" "k \<le> 15" "left_after L k < 0" by blast
        with nonneg have "k \<noteq> b" by auto
        with k have "b + 1 \<le> k" by simp
        with k show ?B by blast
      next
        assume ?B
        then obtain k where k: "b + 1 \<le> k" "k \<le> 15" "left_after L k < 0" by blast
        then have "b \<le> k" by simp
        with k show ?A by blast
      qed
      with step ih show ?thesis by simp
    qed
  qed
qed


lemma calculate_code_offsets_eq:
  assumes "code_counts_array table = histogram_of L" "maximum_number_of_bits table = 15"
    "1 \<le> b" "b \<le> 15" "length offs = 16"
    "\<forall>k. 1 \<le> k \<and> k \<le> b \<longrightarrow> offs ! k = int (first_offset L k)"
  shows "length (calculate_code_offsets table b offs) = 16 \<and>
         (\<forall>k. 1 \<le> k \<and> k \<le> 15 \<longrightarrow>
              calculate_code_offsets table b offs ! k = int (first_offset L k))"
  using assms
proof (induction table b offs rule: calculate_code_offsets.induct)
  case (1 table b offs)
  show ?case
  proof (cases "b < 15")
    case False
    with "1.prems" have "b = 15" by simp
    with "1.prems" show ?thesis by (subst (1 2) calculate_code_offsets.simps) simp
  next
    case True
    let ?offs = "offs [b + 1 := offs ! b + code_counts_array table ! b]"
    have fo: "first_offset L (Suc b) = first_offset L b + code_count L b"
      using "1.prems"(3) by (cases b) simp_all
    have inv: "\<forall>k. 1 \<le> k \<and> k \<le> b + 1 \<longrightarrow> ?offs ! k = int (first_offset L k)"
    proof (intro allI impI)
      fix k assume k: "1 \<le> k \<and> k \<le> b + 1"
      show "?offs ! k = int (first_offset L k)"
      proof (cases "k = b + 1")
        case True
        then show ?thesis
          using "1.prems" \<open>b < 15\<close> fo by (simp add: histogram_of_nth)
      next
        case False
        with k have "k \<le> b" by simp
        with k False "1.prems"(6) show ?thesis by simp
      qed
    qed
    have step: "calculate_code_offsets table b offs = calculate_code_offsets table (b + 1) ?offs"
      using True "1.prems"(2) by (subst calculate_code_offsets.simps) simp
    have p1: "b < maximum_number_of_bits table" using True "1.prems"(2) by simp
    have p3: "1 \<le> b + 1" "b + 1 \<le> 15" using True by simp_all
    have p5: "length ?offs = 16" using "1.prems"(5) by simp
    show ?thesis unfolding step
      by (rule "1.IH" [OF p1 "1.prems"(1,2) p3 p5 inv])
  qed
qed

lemma code_count_append: "code_count (xs @ ys) k = code_count xs k + code_count ys k"
  by (simp add: code_count_def)

lemma first_offset_filter:
  "first_offset L k = length (filter (\<lambda>c. 1 \<le> unat c \<and> unat c < k) L)"
proof (induction L k rule: first_offset.induct)
  case (1 lens)
  then show ?case by simp
next
  case (2 lens)
  have "filter (\<lambda>c. 1 \<le> unat c \<and> unat c < Suc 0) lens = []"
    by (induction lens) auto
  then show ?case by simp
next
  case (3 lens k)
  have "length (filter (\<lambda>c. 1 \<le> unat c \<and> unat c < Suc (Suc k)) lens) =
        length (filter (\<lambda>c. 1 \<le> unat c \<and> unat c < Suc k) lens)
        + length (filter (\<lambda>c. unat c = Suc k) lens)"
    by (induction lens) auto
  with 3 show ?case by (simp add: code_count_def)
qed

lemma first_offset_le_length: "first_offset L k \<le> length L"
  unfolding first_offset_filter by (rule length_filter_le)

lemma first_offset_Suc: "1 \<le> k \<Longrightarrow> first_offset L (Suc k) = first_offset L k + code_count L k"
  by (cases k) simp_all

lemma first_offset_mono: "k \<le> k' \<Longrightarrow> first_offset L k \<le> first_offset L k'"
proof (induction k' rule: nat_induct)
  case 0
  then show ?case by simp
next
  case (Suc k')
  show ?case
  proof (cases "k = Suc k'")
    case True
    then show ?thesis by simp
  next
    case False
    with Suc.prems have le: "k \<le> k'" by simp
    have "first_offset L k' \<le> first_offset L (Suc k')"
      by (cases k') simp_all
    with Suc.IH [OF le] show ?thesis by simp
  qed
qed

lemma first_offset_next:
  assumes "1 \<le> k" "k < k'"
  shows "first_offset L k + code_count L k \<le> first_offset L k'"
proof -
  have "first_offset L k + code_count L k = first_offset L (Suc k)"
    using assms(1) by (simp add: first_offset_Suc)
  also have "\<dots> \<le> first_offset L k'"
    using assms(2) by (intro first_offset_mono) simp
  finally show ?thesis .
qed

lemma symbols_of_size_snoc:
  "symbols_of_size (xs @ [c]) k =
   symbols_of_size xs k @ (if unat c = k then [length xs] else [])"
proof -
  have "filter (\<lambda>s. unat ((xs @ [c]) ! s) = k) [0..<length xs] =
        filter (\<lambda>s. unat (xs ! s) = k) [0..<length xs]"
    by (rule filter_cong) (simp_all add: nth_append)
  then show ?thesis by (simp add: symbols_of_size_def)
qed

lemma length_symbols_of_size: "length (symbols_of_size xs k) = code_count xs k"
proof (induction xs rule: rev_induct)
  case Nil
  show ?case by (simp add: symbols_of_size_def code_count_def)
next
  case (snoc c xs)
  then show ?case by (simp add: symbols_of_size_snoc code_count_snoc)
qed

lemma code_count_take_le:
  "code_count (take s L) k \<le> code_count L k"
proof -
  have "code_count L k = code_count (take s L) k + code_count (drop s L) k"
    unfolding code_count_append [symmetric] by simp
  then show ?thesis by simp
qed

lemma code_count_take_less:
  assumes "s < length L" "unat (L ! s) = k"
  shows "code_count (take s L) k < code_count L k"
proof -
  have "code_count (take (Suc s) L) k = code_count (take s L) k + 1"
    using assms by (simp add: take_Suc_snoc code_count_snoc)
  moreover have "code_count (take (Suc s) L) k \<le> code_count L k"
    by (rule code_count_take_le)
  ultimately show ?thesis by simp
qed


text \<open>
  The invariant of the loop that fills \<^verbatim>\<open>codes_array\<close>, after the symbols below
  \<open>s\<close>: the offset of every code size has advanced by the number of symbols of that
  size seen so far, and these symbols stand, in ascending order, from the first offset of
  their size on.
\<close>

definition fill_invariant :: "16 word list \<Rightarrow> nat \<Rightarrow> int list \<Rightarrow> int list \<Rightarrow> bool" where
  "fill_invariant L s offs codes \<longleftrightarrow>
     length offs = 16 \<and> length codes = 288 \<and>
     (\<forall>k. 1 \<le> k \<and> k \<le> 15 \<longrightarrow> offs ! k = int (first_offset L k + code_count (take s L) k)) \<and>
     (\<forall>k j. 1 \<le> k \<and> k \<le> 15 \<and> j < code_count (take s L) k \<longrightarrow>
        codes ! (first_offset L k + j) = int (symbols_of_size (take s L) k ! j))"

lemma fill_invariant_skip:
  assumes "fill_invariant L s offs codes" "s < length L" "L ! s = 0"
  shows "fill_invariant L (Suc s) offs codes"
proof -
  have t: "take (Suc s) L = take s L @ [0]" using assms(2,3) by (simp add: take_Suc_snoc)
  have c: "code_count (take (Suc s) L) k = code_count (take s L) k" if "Suc 0 \<le> k" for k
    using that unfolding t by (simp add: code_count_snoc)
  have y: "symbols_of_size (take (Suc s) L) k = symbols_of_size (take s L) k" if "Suc 0 \<le> k" for k
    using that unfolding t by (simp add: symbols_of_size_snoc)
  show ?thesis
    using assms(1) unfolding fill_invariant_def by (simp add: c y cong: conj_cong)
qed

lemma fill_invariant_place:
  assumes inv: "fill_invariant L s offs codes" and s: "s < length L" and len: "length L \<le> 288"
    and k0: "unat (L ! s) = k0" "1 \<le> k0" "k0 \<le> 15"
    and p: "p = first_offset L k0 + code_count (take s L) k0"
  shows "p < length L \<and> fill_invariant L (Suc s) (offs [k0 := int p + 1]) (codes [p := int s])"
proof -
  have t: "take (Suc s) L = take s L @ [L ! s]" using s by (simp add: take_Suc_snoc)
  have lt: "code_count (take s L) k0 < code_count L k0"
    using s k0(1) by (rule code_count_take_less)
  have "p < first_offset L k0 + code_count L k0" using lt p by simp
  also have "\<dots> \<le> first_offset L 16" using k0 by (intro first_offset_next) simp_all
  also have "\<dots> \<le> length L" by (rule first_offset_le_length)
  finally have pL: "p < length L" .
  from inv have lo: "length offs = 16" and lc: "length codes = 288"
    and io: "\<And>k. 1 \<le> k \<Longrightarrow> k \<le> 15 \<Longrightarrow> offs ! k = int (first_offset L k + code_count (take s L) k)"
    and ic: "\<And>k j. 1 \<le> k \<Longrightarrow> k \<le> 15 \<Longrightarrow> j < code_count (take s L) k \<Longrightarrow>
        codes ! (first_offset L k + j) = int (symbols_of_size (take s L) k ! j)"
    unfolding fill_invariant_def by simp_all
  have c: "code_count (take (Suc s) L) k = code_count (take s L) k + (if k = k0 then 1 else 0)" for k
    unfolding t using k0(1) by (auto simp: code_count_snoc)
  have y: "symbols_of_size (take (Suc s) L) k =
           symbols_of_size (take s L) k @ (if k = k0 then [s] else [])" for k
    unfolding t using k0(1) s by (auto simp: symbols_of_size_snoc)
  have o': "(offs [k0 := int p + 1]) ! k = int (first_offset L k + code_count (take (Suc s) L) k)"
    if "1 \<le> k" "k \<le> 15" for k
  proof (cases "k = k0")
    case True
    then show ?thesis using lo k0 p by (simp add: c)
  next
    case False
    then show ?thesis using io [OF that] by (simp add: c)
  qed
  have c': "(codes [p := int s]) ! (first_offset L k + j) = int (symbols_of_size (take (Suc s) L) k ! j)"
    if k: "1 \<le> k" "k \<le> 15" and j: "j < code_count (take (Suc s) L) k" for k j
  proof (cases "k = k0")
    case True
    show ?thesis
    proof (cases "j = code_count (take s L) k0")
      case jp: True
      then have "first_offset L k + j = p" using True p by simp
      moreover have "symbols_of_size (take (Suc s) L) k ! j = s"
        unfolding y using True jp by (simp add: nth_append length_symbols_of_size)
      ultimately show ?thesis using pL len lc by simp
    next
      case jp: False
      with j True have j': "j < code_count (take s L) k" by (simp add: c)
      then have ne: "first_offset L k + j \<noteq> p" using True p by simp
      have "symbols_of_size (take (Suc s) L) k ! j = symbols_of_size (take s L) k ! j"
        unfolding y using j' by (simp add: nth_append length_symbols_of_size)
      with ic [OF k j'] ne show ?thesis by simp
    qed
  next
    case False
    with j have j': "j < code_count (take s L) k" by (simp add: c)
    have jL: "j < code_count L k" using j' code_count_take_le [of s L k] by simp
    have ne: "first_offset L k + j \<noteq> p"
    proof (cases "k < k0")
      case True
      have "first_offset L k + j < first_offset L k + code_count L k" using jL by simp
      also have "\<dots> \<le> first_offset L k0" using k(1) True by (rule first_offset_next)
      also have "\<dots> \<le> p" using p by simp
      finally show ?thesis by simp
    next
      case ge: False
      with False have gt: "k0 < k" by simp
      have "p < first_offset L k0 + code_count L k0" using lt p by simp
      also have "\<dots> \<le> first_offset L k" using k0(2) gt by (rule first_offset_next)
      also have "\<dots> \<le> first_offset L k + j" by simp
      finally show ?thesis by simp
    qed
    have "symbols_of_size (take (Suc s) L) k = symbols_of_size (take s L) k"
      unfolding y using False by simp
    with ic [OF k j'] ne show ?thesis by simp
  qed
  have "fill_invariant L (Suc s) (offs [k0 := int p + 1]) (codes [p := int s])"
    unfolding fill_invariant_def using lo lc o' c' by simp
  with pL show ?thesis by simp
qed

lemma fill_codes_array_sorted:
  assumes "n \<le> length lens" "\<forall>c\<in>set (take n lens). unat c \<le> 15" "n \<le> 288" "s \<le> n"
    "fill_invariant (take n lens) s offs (codes_array table)"
  shows "\<exists>codes offs'. fill_codes_array lens n s offs table = Inr (table\<lparr>codes_array := codes\<rparr>) \<and>
           fill_invariant (take n lens) n offs' codes"
  using assms
proof (induction lens n s offs table rule: fill_codes_array.induct)
  case (1 lens n s offs table)
  let ?L = "take n lens"
  show ?case
  proof (cases "s < n")
    case False
    with "1.prems" have sn: "s = n" by simp
    have "fill_codes_array lens n s offs table = Inr table"
      using False by (subst fill_codes_array.simps) simp
    moreover have "table = table\<lparr>codes_array := codes_array table\<rparr>" by simp
    ultimately show ?thesis using "1.prems"(5) sn by metis
  next
    case True
    have len: "\<not> length lens \<le> s" using True "1.prems"(1) by simp
    have sL: "s < length ?L" using True "1.prems"(1) by simp
    have nth: "?L ! s = lens ! s" using True by simp
    have "?L ! s \<in> set ?L" using sL by (rule nth_mem)
    then have c15: "unat (lens ! s) \<le> 15" using "1.prems"(2) nth by auto
    have n16: "\<not> 16 \<le> unat (lens ! s)" using c15 by simp
    have Sn: "s + 1 \<le> n" using True by simp
    show ?thesis
    proof (cases "lens ! s = 0")
      case z: True
      have step: "fill_codes_array lens n s offs table = fill_codes_array lens n (s + 1) offs table"
        using True len z by (subst fill_codes_array.simps) simp
      have inv: "fill_invariant ?L (s + 1) offs (codes_array table)"
        using fill_invariant_skip [OF "1.prems"(5) sL] nth z by simp
      show ?thesis unfolding step
        by (rule "1.IH"(1) [OF True len refl z "1.prems"(1,2,3) Sn inv])
    next
      case nz: False
      define k0 where "k0 = unat (lens ! s)"
      have k1: "1 \<le> k0" using nz unfolding k0_def
        by (metis One_nat_def Suc_leI unat_eq_zero neq0_conv)
      have k15: "k0 \<le> 15" using c15 by (simp add: k0_def)
      define p where "p = first_offset ?L k0 + code_count (take s ?L) k0"
      have Ll: "length ?L \<le> 288" using "1.prems"(1,3) by simp
      have u: "unat (?L ! s) = k0" using nth by (simp add: k0_def)
      from fill_invariant_place [OF "1.prems"(5) sL Ll u k1 k15 p_def]
      have pL: "p < length ?L"
        and inv: "fill_invariant ?L (Suc s) (offs [k0 := int p + 1]) ((codes_array table) [p := int s])"
        by simp_all
      have off: "offs ! k0 = int p"
        using "1.prems"(5) k1 k15 unfolding fill_invariant_def p_def by simp
      have pn: "p < n" using pL by simp
      have b1: "\<not> (offs ! unat (lens ! s) < 0 \<or> int n < offs ! unat (lens ! s))"
        using off pn by (simp add: k0_def [symmetric])
      have b2: "\<not> 288 \<le> offs ! unat (lens ! s)"
        using off pn "1.prems"(3) by (simp add: k0_def [symmetric])
      let ?offs = "offs [unat (lens ! s) := offs ! unat (lens ! s) + 1]"
      let ?table = "table\<lparr> codes_array := (codes_array table) [nat (offs ! unat (lens ! s)) := int s] \<rparr>"
      have step: "fill_codes_array lens n s offs table = fill_codes_array lens n (s + 1) ?offs ?table"
        using True len nz n16 b1 b2 by (subst fill_codes_array.simps) (simp add: Let_def)
      have inv': "fill_invariant ?L (s + 1) ?offs (codes_array ?table)"
        using inv off by (simp add: k0_def [symmetric])
      from "1.IH"(2) [OF True len refl nz n16 refl b1 b2 "1.prems"(1,2,3) Sn inv']
      obtain codes offs' where
        r: "fill_codes_array lens n (s + 1) ?offs ?table = Inr (?table\<lparr>codes_array := codes\<rparr>)"
        and i: "fill_invariant ?L n offs' codes"
        by blast
      have "?table\<lparr>codes_array := codes\<rparr> = table\<lparr>codes_array := codes\<rparr>" by simp
      with r i show ?thesis unfolding step by metis
    qed
  qed
qed


text \<open>
  A table is canonical for a vector of code sizes when it holds the histogram of the
  code sizes and the symbols sorted by code size and, within one size, by symbol.
\<close>

definition canonical_table :: "16 word list \<Rightarrow> deflate_huffman_table \<Rightarrow> bool" where
  "canonical_table lens table \<longleftrightarrow>
     maximum_number_of_bits table = 15 \<and>
     code_counts_array table = map (\<lambda>k. int (code_count lens k)) [0..<16] \<and>
     length (codes_array table) = 288 \<and>
     (\<forall>k\<in>{1..15}. \<forall>j<code_count lens k.
        codes_array table ! (first_offset lens k + j) = int (symbols_of_size lens k ! j))"

lemma histogram_of_Nil: "histogram_of [] = replicate 16 0"
  by (rule nth_equalityI) (simp_all add: histogram_of_def code_count_def)

lemma code_count_all_zero:
  assumes "code_count L 0 = length L" "1 \<le> k"
  shows "code_count L k = 0"
proof -
  have "length (filter (\<lambda>c. unat c = 0) L) + length (filter (\<lambda>c. unat c = k) L) \<le> length L"
    using assms(2) by (induction L) auto
  with assms(1) show ?thesis by (simp add: code_count_def)
qed

lemma left_after_all_zero:
  assumes "code_count L 0 = length L"
  shows "0 < left_after L k"
  by (induction k) (simp_all add: code_count_all_zero [OF assms])

lemma filter_full:
  "length (filter P xs) = length xs \<Longrightarrow> x \<in> set xs \<Longrightarrow> P x"
proof (induction xs)
  case Nil
  then show ?case by simp
next
  case (Cons a xs)
  have le: "length (filter P xs) \<le> length xs" by (rule length_filter_le)
  show ?case
  proof (cases "P a")
    case True
    with Cons show ?thesis by auto
  next
    case False
    with Cons.prems(1) le show ?thesis by simp
  qed
qed

lemma code_count_zero_not_all:
  assumes "c \<in> set L" "c \<noteq> 0"
  shows "code_count L 0 \<noteq> length L"
proof
  assume "code_count L 0 = length L"
  then have "length (filter (\<lambda>c. unat c = 0) L) = length L" by (simp add: code_count_def)
  from filter_full [OF this assms(1)] have "unat c = 0" .
  with assms(2) show False by (simp add: unat_eq_zero)
qed

lemma construct_stages:
  assumes n: "n \<le> length lens" and le15: "\<forall>c\<in>set (take n lens). unat c \<le> 15"
  defines "L \<equiv> take n lens"
  defines "table1 \<equiv> \<lparr> maximum_number_of_bits = 15, codes_array = replicate 288 0,
                        code_counts_array = histogram_of L, number_of_codes = 16 \<rparr>"
  shows "deflate_huffman_table_construct lens (int n) =
         (if code_count L 0 = n then Inr None
          else if \<exists>k. 1 \<le> k \<and> k \<le> 15 \<and> left_after L k < 0 then Inl OverSubscribed
          else case fill_codes_array lens n 0
                      (calculate_code_offsets table1 1 ((replicate 16 0) [0 := 0, 1 := 0])) table1 of
                 Inl e \<Rightarrow> Inl e | Inr table \<Rightarrow> Inr (Some table))"
proof -
  let ?t0 = "\<lparr> maximum_number_of_bits = 15, codes_array = replicate 288 0,
                 code_counts_array = replicate 16 0, number_of_codes = 16 \<rparr>"
  have h0: "code_counts_array ?t0 = histogram_of (take 0 lens)" by (simp add: histogram_of_Nil)
  have c: "count_code_sizes lens n 0 ?t0 = Inr table1"
    using count_code_sizes_histogram [OF n le15 _ h0] by (simp add: table1_def L_def)
  have z: "code_counts_array table1 ! 0 = int (code_count L 0)"
    by (simp add: table1_def histogram_of_nth)
  have l: "check_left_value table1 (Suc 0) 1 =
         (if \<exists>k. 1 \<le> k \<and> k \<le> 15 \<and> left_after L k < 0 then Inl OverSubscribed
          else Inr (left_after L 15))"
    using check_left_value_eq [of table1 L 1 1] by (simp add: table1_def)
  show ?thesis
  proof (cases "code_count L 0 = n")
    case True
    then show ?thesis
      unfolding deflate_huffman_table_construct_def Let_def by (simp add: c z)
  next
    case nz: False
    show ?thesis
    proof (cases "\<exists>k. 1 \<le> k \<and> k \<le> 15 \<and> left_after L k < 0")
      case True
      then have "check_left_value table1 (Suc 0) 1 = Inl OverSubscribed"
        unfolding l by (rule if_P)
      then show ?thesis
        unfolding deflate_huffman_table_construct_def Let_def
        using nz True by (simp add: c z)
    next
      case False
      then have "check_left_value table1 (Suc 0) 1 = Inr (left_after L 15)"
        unfolding l by (rule if_not_P)
      then show ?thesis
        unfolding deflate_huffman_table_construct_def Let_def
        using nz False by (auto simp: c z)
    qed
  qed
qed

lemma fill_codes_array_errors:
  "fill_codes_array lens n s offs table = Inl e \<Longrightarrow> e = MemoryFault \<or> e = OutOfRange"
proof (induction lens n s offs table rule: fill_codes_array.induct)
  case (1 lens n s offs table)
  show ?case
  proof (cases "s < n \<and> \<not> length lens \<le> s")
    case False
    with "1.prems" show ?thesis
      by (subst (asm) fill_codes_array.simps) (auto split: if_splits)
  next
    case True
    show ?thesis
    proof (cases "lens ! s = 0")
      case z: True
      with "1.prems" True have "fill_codes_array lens n (s + 1) offs table = Inl e"
        by (subst (asm) fill_codes_array.simps) simp
      with "1.IH"(1) True z show ?thesis by simp
    next
      case nz: False
      let ?x = "lens ! s"
      let ?xa = "offs ! unat ?x"
      show ?thesis
      proof (cases "\<not> 16 \<le> unat ?x \<and> \<not> (?xa < 0 \<or> int n < ?xa) \<and> \<not> 288 \<le> ?xa")
        case False
        with "1.prems" True nz show ?thesis
          by (subst (asm) fill_codes_array.simps) (auto simp: Let_def split: if_splits)
      next
        case ok: True
        with "1.prems" True nz have
          r: "fill_codes_array lens n (s + 1) (offs [unat ?x := ?xa + 1])
                (table\<lparr> codes_array := (codes_array table) [nat ?xa := int s] \<rparr>) = Inl e"
          by (subst (asm) fill_codes_array.simps) (simp add: Let_def)
        from True have a: "s < n" and b: "\<not> length lens \<le> s" by simp_all
        from ok have c: "\<not> 16 \<le> unat ?x" and d: "\<not> (?xa < 0 \<or> int n < ?xa)"
          and f: "\<not> 288 \<le> ?xa" by simp_all
        show ?thesis by (rule "1.IH"(2) [OF a b refl nz c refl d f r])
      qed
    qed
  qed
qed

text \<open>
  Claim C7.  For a vector of code sizes that are all at most 15,
  \<^verbatim>\<open>deflate_huffman_table_construct\<close> fails with \<open>OverSubscribed\<close> exactly when the
  iteration \<open>left = 2 * left - count[len]\<close>, started from 1 and run over the sizes 1 to
  15, makes \<open>left\<close> negative at some step.  When \<open>left\<close> never becomes negative and
  some code size is not zero, the builder returns a table, also when the final \<open>left\<close>
  is positive (an incomplete set); the table is the canonical one, given that the vector
  has at most the 288 entries that \<^verbatim>\<open>codes_array\<close> can hold.
\<close>

theorem construct_over_subscribed_iff:
  assumes n: "n \<le> length code_sizes_array"
    and le15: "\<forall>c\<in>set (take n code_sizes_array). unat c \<le> 15"
  shows "(deflate_huffman_table_construct code_sizes_array (int n) = Inl OverSubscribed
            \<longleftrightarrow> (\<exists>k\<in>{1..15}. left_after (take n code_sizes_array) k < 0))
       \<and> ((\<forall>k\<in>{1..15}. 0 \<le> left_after (take n code_sizes_array) k)
             \<and> (\<exists>c\<in>set (take n code_sizes_array). c \<noteq> 0) \<and> n \<le> 288
           \<longrightarrow> (\<exists>table. deflate_huffman_table_construct code_sizes_array (int n) = Inr (Some table)
                  \<and> canonical_table (take n code_sizes_array) table))"
proof -
  let ?L = "take n code_sizes_array"
  let ?table1 = "\<lparr> maximum_number_of_bits = 15, codes_array = replicate 288 0,
                        code_counts_array = histogram_of ?L, number_of_codes = 16 \<rparr>"
  let ?offs = "calculate_code_offsets ?table1 1 ((replicate 16 0) [0 := 0, 1 := 0])"
  let ?over = "\<exists>k. 1 \<le> k \<and> k \<le> 15 \<and> left_after ?L k < 0"
  note stages = construct_stages [OF n le15]
  have lenL: "length ?L = n" using n by simp
  have over_eq: "(\<exists>k\<in>{1..15}. left_after ?L k < 0) \<longleftrightarrow> ?over" by auto
  have part1: "deflate_huffman_table_construct code_sizes_array (int n) = Inl OverSubscribed
            \<longleftrightarrow> ?over"
  proof (cases "code_count ?L 0 = n")
    case True
    then have "\<not> ?over" using left_after_all_zero [of ?L] lenL
      by (metis not_less order_less_imp_le)
    with True show ?thesis unfolding stages by simp
  next
    case nz: False
    show ?thesis
    proof (cases ?over)
      case True
      with nz show ?thesis unfolding stages by simp
    next
      case False
      have "fill_codes_array code_sizes_array n 0 ?offs ?table1 \<noteq> Inl OverSubscribed"
        using fill_codes_array_errors [of code_sizes_array n 0 ?offs ?table1 OverSubscribed]
        by auto
      with nz False show ?thesis unfolding stages
        by (auto split: sum.splits)
    qed
  qed
  have part2: "\<exists>table. deflate_huffman_table_construct code_sizes_array (int n) = Inr (Some table)
                  \<and> canonical_table ?L table"
    if nonneg: "\<forall>k\<in>{1..15}. 0 \<le> left_after ?L k"
      and some: "\<exists>c\<in>set ?L. c \<noteq> 0" and n288: "n \<le> 288"
  proof -
    from some obtain c where "c \<in> set ?L" "c \<noteq> 0" by blast
    then have nz: "code_count ?L 0 \<noteq> n" using code_count_zero_not_all [of c ?L] lenL by simp
    have no: "\<not> ?over" using nonneg by (auto simp: not_less)
    have o: "length ?offs = 16 \<and> (\<forall>k. 1 \<le> k \<and> k \<le> 15 \<longrightarrow> ?offs ! k = int (first_offset ?L k))"
      by (rule calculate_code_offsets_eq) auto
    have inv0: "fill_invariant (take n code_sizes_array) 0 ?offs (codes_array ?table1)"
      unfolding fill_invariant_def using o by (simp add: code_count_def)
    from fill_codes_array_sorted [OF n le15 n288 _ inv0]
    obtain codes offs' where
      r: "fill_codes_array code_sizes_array n 0 ?offs ?table1 = Inr (?table1\<lparr>codes_array := codes\<rparr>)"
      and i: "fill_invariant ?L n offs' codes"
      by auto
    have res: "deflate_huffman_table_construct code_sizes_array (int n)
               = Inr (Some (?table1\<lparr>codes_array := codes\<rparr>))"
      unfolding stages using nz no r by simp
    have "canonical_table ?L (?table1\<lparr>codes_array := codes\<rparr>)"
      using i unfolding canonical_table_def fill_invariant_def
      by (simp add: histogram_of_def)
    with res show ?thesis by blast
  qed
  show ?thesis
    unfolding over_eq using part1 part2 by blast
qed

lemma left_after_1_2: "left_after [1, 2] k = (if k = 0 then 1 else if k = 1 then 1 else 2 ^ (k - 2))"
proof (induction k)
  case 0
  show ?case by simp
next
  case (Suc k)
  consider "k = 0" | "k = 1" | "k \<ge> 2" by linarith
  then show ?case
  proof cases
    case 1
    then show ?thesis by (simp add: code_count_def)
  next
    case 2
    then show ?thesis using Suc by (simp add: code_count_def)
  next
    case 3
    then obtain j where "k = Suc (Suc j)" by (metis Suc_le_D numeral_2_eq_2 Suc_le_mono)
    then show ?thesis using Suc by (simp add: code_count_def)
  qed
qed

text \<open>
  Three codes of size 1 are over-subscribed.  The sizes 1 and 2 form an incomplete set
  (the final \<open>left\<close> is positive): it is accepted.
\<close>

theorem construct_over_subscribed_iff_witness:
  "deflate_huffman_table_construct [1, 1, 1] 3 = Inl OverSubscribed
   \<and> (\<exists>table. deflate_huffman_table_construct [1, 2] 2 = Inr (Some table)
         \<and> canonical_table [1, 2] table)
   \<and> 0 < left_after [1, 2] 15"
proof -
  have a: "\<exists>k\<in>{1..15}. left_after (take 3 [1, 1, 1]) k < 0"
    by (rule bexI [of _ 1]) (simp_all add: code_count_def)
  have b: "\<forall>k\<in>{1..15}. 0 \<le> left_after (take 2 [1, 2]) k"
    by (simp add: left_after_1_2)
  have c: "0 < left_after [1, 2] 15"
    by (simp add: left_after_1_2)
  have d: "\<exists>c\<in>set (take 2 [1, 2 :: 16 word]). c \<noteq> 0" by simp
  from construct_over_subscribed_iff [of 3 "[1, 1, 1]"] a
  have 1: "deflate_huffman_table_construct [1, 1, 1] 3 = Inl OverSubscribed" by simp
  from construct_over_subscribed_iff [of 2 "[1, 2]"] b d
  have 2: "\<exists>table. deflate_huffman_table_construct [1, 2] 2 = Inr (Some table)
         \<and> canonical_table [1, 2] table" by simp
  from 1 2 c show ?thesis by simp
qed


text \<open>
  Claim C6 (the source does not do this).  The test of the source is
  \<^verbatim>\<open>code_size > table->number_of_codes\<close> with \<^verbatim>\<open>number_of_codes\<close> equal to 16, one
  more than the maximum number of bits.  A code size of 17 is rejected, but a code size
  of 16 passes the test and the next statement, \<^verbatim>\<open>code_counts_array[ code_size ] += 1\<close>,
  indexes the 16-entry array at 16: the out-of-bounds access is reached.
\<close>

theorem construct_code_size_16_not_rejected:
  "deflate_huffman_table_construct [16] 1 = Inl MemoryFault
   \<and> deflate_huffman_table_construct [17] 1 = Inl OutOfRange"
  by code_simp

section \<open>Adler-32: the batched computation against the reference\<close>

text \<open>
  The reference of the specification: starting from \<open>lo = 1\<close>, \<open>hi = 0\<close>, every
  byte \<open>b\<close> sets \<open>lo = (lo + b) mod 65521\<close> and \<open>hi = (hi + lo) mod 65521\<close>; the
  checksum is \<open>(hi << 16) | lo\<close>.
\<close>

definition adler32_spec_step :: "8 word \<Rightarrow> nat \<times> nat \<Rightarrow> nat \<times> nat" where
  "adler32_spec_step b s =
     (case s of (lo, hi) \<Rightarrow>
        let lo = (lo + unat b) mod 65521;
            hi = (hi + lo) mod 65521
        in (lo, hi))"

definition adler32_spec :: "8 word list \<Rightarrow> 32 word" where
  "adler32_spec data =
     (case fold adler32_spec_step data (1, 0) of
        (lo, hi) \<Rightarrow> push_bit 16 (of_nat hi) OR of_nat lo)"

text \<open>The sums without any reduction.\<close>

definition sum_step :: "8 word \<Rightarrow> nat \<times> nat \<Rightarrow> nat \<times> nat" where
  "sum_step b s = (case s of (lo, hi) \<Rightarrow> (lo + unat b, hi + (lo + unat b)))"

lemma sum_step_simp [simp]: "sum_step b (lo, hi) = (lo + unat b, hi + (lo + unat b))"
  by (simp add: sum_step_def)

lemma unat_byte_le: "unat (b :: 8 word) \<le> 255"
proof -
  have "unat b < 2 ^ LENGTH(8)" by (rule unsigned_less)
  then show ?thesis by simp
qed

lemma sums_bound:
  "fold sum_step bytes (lo, hi) = (lo', hi') \<Longrightarrow>
   lo' \<le> lo + 255 * length bytes \<and>
   2 * hi' \<le> 2 * hi + 2 * length bytes * lo + 255 * (length bytes * (length bytes + 1))"
proof (induction bytes arbitrary: lo hi)
  case Nil
  then show ?case by simp
next
  case (Cons b bytes)
  let ?m = "length bytes"
  have b: "unat b \<le> 255" by (rule unat_byte_le)
  from Cons.prems have "fold sum_step bytes (lo + unat b, hi + (lo + unat b)) = (lo', hi')"
    by simp
  from Cons.IH [OF this] have
    1: "lo' \<le> lo + unat b + 255 * ?m" and
    2: "2 * hi' \<le> 2 * (hi + (lo + unat b)) + 2 * ?m * (lo + unat b) + 255 * (?m * (?m + 1))"
    by simp_all
  have 3: "2 * (?m + 1) * unat b \<le> 2 * (?m + 1) * 255" using b by (intro mult_left_mono) simp_all
  have "2 * hi' \<le> 2 * hi + 2 * (?m + 1) * lo + 2 * (?m + 1) * unat b + 255 * (?m * (?m + 1))"
    using 2 by (simp add: algebra_simps)
  also have "\<dots> \<le> 2 * hi + 2 * (?m + 1) * lo + 2 * (?m + 1) * 255 + 255 * (?m * (?m + 1))"
    using 3 by simp
  also have "\<dots> = 2 * hi + 2 * (?m + 1) * lo + 255 * ((?m + 1) * (?m + 2))"
    by (simp add: algebra_simps)
  finally have "2 * hi' \<le> 2 * hi + 2 * length (b # bytes) * lo
      + 255 * (length (b # bytes) * (length (b # bytes) + 1))" by (simp add: algebra_simps)
  moreover have "lo' \<le> lo + 255 * length (b # bytes)" using 1 b by simp
  ultimately show ?case by blast
qed

lemma sums_mod:
  "fold sum_step bytes (lo, hi) = (lo', hi') \<Longrightarrow>
   fold adler32_spec_step bytes (lo mod 65521, hi mod 65521) = (lo' mod 65521, hi' mod 65521)"
proof (induction bytes arbitrary: lo hi)
  case Nil
  then show ?case by simp
next
  case (Cons b bytes)
  from Cons.prems have "fold sum_step bytes (lo + unat b, hi + (lo + unat b)) = (lo', hi')"
    by simp
  from Cons.IH [OF this] have
    "fold adler32_spec_step bytes ((lo + unat b) mod 65521, (hi + (lo + unat b)) mod 65521)
       = (lo' mod 65521, hi' mod 65521)" .
  moreover have "adler32_spec_step b (lo mod 65521, hi mod 65521)
      = ((lo + unat b) mod 65521, (hi + (lo + unat b)) mod 65521)"
  proof -
    have 1: "(lo mod 65521 + unat b) mod 65521 = (lo + unat b) mod 65521"
      by (simp add: mod_add_left_eq)
    have "(hi mod 65521 + (lo + unat b) mod 65521) mod 65521 = (hi + (lo + unat b)) mod 65521"
      by (simp add: mod_add_eq)
    with 1 show ?thesis by (simp add: adler32_spec_step_def Let_def)
  qed
  ultimately show ?case by simp
qed


text \<open>The two shift-and-add rounds and the final subtraction compute the remainder
  modulo 65521 of any 32-bit value.\<close>

lemma fold_nat_mod: "(n mod 65536 + 15 * (n div 65536)) mod 65521 = (n :: nat) mod 65521"
proof -
  let ?q = "n div 65536" and ?r = "n mod 65536"
  have "n = ?r + 15 * ?q + 65521 * ?q" by simp
  then have "n mod 65521 = (?r + 15 * ?q + 65521 * ?q) mod 65521" by simp
  also have "\<dots> = (?r + 15 * ?q) mod 65521" by (rule mod_mult_self2)
  finally show ?thesis by simp
qed

lemma unat_adler32_fold: "unat (adler32_fold w) = unat w mod 65536 + 15 * (unat w div 65536)"
proof -
  let ?v = "drop_bit 16 w"
  have "unat ?v = drop_bit 16 (unat w)" by (simp only: unat_drop_bit_eq)
  then have v: "unat ?v = unat w div 65536" by (simp add: drop_bit_eq_div)
  have "unat w < 2 ^ LENGTH(32)" by (rule unsigned_less)
  then have vb: "unat ?v \<le> 65535" unfolding v by simp
  have "w AND 0x0000ffff = take_bit 16 w"
    by (simp add: take_bit_eq_mask mask_eq_exp_minus_1)
  then have lo: "unat (w AND 0x0000ffff) = unat w mod 65536"
    by (simp add: unsigned_take_bit_eq take_bit_eq_mod unat_mod)
  have m: "unat (push_bit 4 ?v) = 16 * unat ?v"
  proof -
    have "unat (?v * 16) = unat ?v * unat (16 :: 32 word)"
      using vb by (subst unat_mult_lem [symmetric]) simp
    then show ?thesis by (simp add: push_bit_eq_mult)
  qed
  have le: "?v \<le> push_bit 4 ?v" unfolding word_le_nat_alt m by simp
  have d: "unat (push_bit 4 ?v - ?v) = 15 * unat ?v"
    using unat_sub [OF le] m by simp
  have "unat (w AND 0x0000ffff) + unat (push_bit 4 ?v - ?v) < 2 ^ LENGTH(32)"
    unfolding lo d using vb by simp
  then have "unat ((w AND 0x0000ffff) + (push_bit 4 ?v - ?v))
             = unat (w AND 0x0000ffff) + unat (push_bit 4 ?v - ?v)"
    by (simp only: unat_add_lem)
  then have "unat ((w AND 0x0000ffff) + (push_bit 4 ?v - ?v)) = unat w mod 65536 + 15 * unat ?v"
    unfolding lo d .
  then show ?thesis unfolding adler32_fold_def Let_def v by simp
qed

lemma unat_adler32_modulo: "unat (adler32_modulo w) = unat w mod 65521"
proof -
  define n where "n = unat w"
  define f where "f = (\<lambda>k :: nat. k mod 65536 + 15 * (k div 65536))"
  have fmod: "f k mod 65521 = k mod 65521" for k unfolding f_def by (rule fold_nat_mod)
  have uf: "unat (adler32_fold x) = f (unat x)" for x by (simp add: unat_adler32_fold f_def)
  have "n < 2 ^ LENGTH(32)" unfolding n_def by (rule unsigned_less)
  then have "n div 65536 \<le> 65535" by simp
  moreover have "n mod 65536 \<le> 65535" by simp
  ultimately have fb: "f n \<le> 1048560" unfolding f_def by linarith
  define w1 where "w1 = adler32_fold w"
  define w2 where "w2 = (if w1 > 65521 then adler32_fold w1 else w1)"
  have u1: "unat w1 = f n" by (simp add: w1_def uf n_def)
  have c1: "w1 > 65521 \<longleftrightarrow> f n > 65521" by (simp add: word_less_nat_alt u1)
  have u2: "unat w2 = (if f n > 65521 then f (f n) else f n)"
    by (simp add: w2_def c1 uf u1)
  have ffb: "f (f n) \<le> 65760" if "f n > 65521"
  proof -
    have "f n div 65536 \<le> 15" using fb by simp
    moreover have "f n mod 65536 \<le> 65535" by simp
    moreover have "f (f n) = f n mod 65536 + 15 * (f n div 65536)" by (simp add: f_def)
    ultimately show ?thesis by linarith
  qed
  have b2: "unat w2 \<le> 65760" using ffb u2 by (auto split: if_splits)
  have m2: "unat w2 mod 65521 = n mod 65521" unfolding u2 by (simp add: fmod)
  have c2: "w2 \<ge> 65521 \<longleftrightarrow> unat w2 \<ge> 65521" by (simp add: word_le_nat_alt)
  have res: "adler32_modulo w = (if w2 \<ge> 65521 then w2 - 65521 else w2)"
    by (simp add: adler32_modulo_def Let_def w2_def w1_def)
  show ?thesis
  proof (cases "w2 \<ge> 65521")
    case True
    then have ge: "unat w2 \<ge> 65521" using c2 by simp
    have "unat (w2 - 65521) = unat w2 - 65521" using unat_sub [OF True] by simp
    moreover have "(unat w2 - 65521) mod 65521 = unat w2 mod 65521"
      using ge by (simp add: le_mod_geq)
    moreover have "unat w2 - 65521 < 65521" using b2 by simp
    ultimately have "unat (w2 - 65521) = n mod 65521" using m2 by simp
    with True show ?thesis unfolding res n_def by simp
  next
    case False
    then have "unat w2 < 65521" using c2 by simp
    then have "unat w2 = n mod 65521" using m2 by simp
    with False show ?thesis unfolding res n_def by simp
  qed
qed


text \<open>The sums on 32-bit words follow the sums on naturals.\<close>

lemma adler32_byte_of_nat:
  "adler32_byte buffer (off, of_nat lo, of_nat hi) =
   (off + 1, of_nat (lo + unat (buffer ! off)), of_nat (hi + (lo + unat (buffer ! off))))"
  by (simp add: adler32_byte_def Let_def)

lemma adler32_byte_funpow:
  assumes "off + m \<le> length buffer"
    "fold sum_step (take m (drop off buffer)) (lo, hi) = (lo', hi')"
  shows "(adler32_byte buffer ^^ m) (off, of_nat lo, of_nat hi) = (off + m, of_nat lo', of_nat hi')"
  using assms
proof (induction m arbitrary: lo' hi')
  case 0
  then show ?case by simp
next
  case (Suc m)
  obtain lo1 hi1 where f: "fold sum_step (take m (drop off buffer)) (lo, hi) = (lo1, hi1)"
    by (cases "fold sum_step (take m (drop off buffer)) (lo, hi)") blast
  have len: "m < length (drop off buffer)" using Suc.prems(1) by simp
  have t: "take (Suc m) (drop off buffer) = take m (drop off buffer) @ [buffer ! (off + m)]"
    using len by (simp add: take_Suc_conv_app_nth)
  from Suc.prems(2) have r: "lo' = lo1 + unat (buffer ! (off + m))"
    "hi' = hi1 + (lo1 + unat (buffer ! (off + m)))"
    unfolding t by (simp_all add: f)
  have le: "off + m \<le> length buffer" using Suc.prems(1) by simp
  have "(adler32_byte buffer ^^ m) (off, of_nat lo, of_nat hi) = (off + m, of_nat lo1, of_nat hi1)"
    using Suc.IH [OF le f] .
  then show ?case
    by (simp add: adler32_byte_of_nat r)
qed

lemma adler32_spec_step_simp:
  "adler32_spec_step b (lo, hi) =
   ((lo + unat b) mod 65521, (hi + (lo + unat b) mod 65521) mod 65521)"
  by (simp add: adler32_spec_step_def Let_def)

lemma spec_fold_bounded:
  "fold adler32_spec_step data (lo, hi) = (lo', hi') \<Longrightarrow> lo < 65521 \<Longrightarrow> hi < 65521 \<Longrightarrow>
   lo' < 65521 \<and> hi' < 65521"
proof (induction data arbitrary: lo hi)
  case Nil
  then show ?case by simp
next
  case (Cons b data)
  from Cons.prems(1) have
    "fold adler32_spec_step data ((lo + unat b) mod 65521,
        (hi + (lo + unat b) mod 65521) mod 65521) = (lo', hi')"
    by (simp add: adler32_spec_step_simp)
  from Cons.IH [OF this] show ?case by simp
qed


text \<open>
  A state of the computation is reduced at its offset when its two words are the
  reference sums of the bytes before the offset.  Up to 5552 bytes can be added to a
  reduced state without overflow of the 32-bit words, and the reduction of the result is
  a reduced state again.
\<close>

definition adler32_reduced :: "8 word list \<Rightarrow> nat \<times> 32 word \<times> 32 word \<Rightarrow> bool" where
  "adler32_reduced buffer s =
     (case s of (off, lw, uw) \<Rightarrow>
        case fold adler32_spec_step (take off buffer) (1, 0) of
          (lo, hi) \<Rightarrow> lw = of_nat lo \<and> uw = of_nat hi)"

lemma word_eq_of_unat: "unat (w :: 32 word) = n \<Longrightarrow> w = of_nat n"
  by auto

lemma adler32_chunk:
  assumes red: "adler32_reduced buffer (off, lw, uw)"
    and len: "off + m \<le> length buffer" and m: "m \<le> 5552"
  shows "\<exists>lw' uw'. (adler32_byte buffer ^^ m) (off, lw, uw) = (off + m, lw', uw') \<and>
           adler32_reduced buffer (off + m, adler32_modulo lw', adler32_modulo uw')"
proof -
  obtain lo hi where f0: "fold adler32_spec_step (take off buffer) (1, 0) = (lo, hi)"
    by (cases "fold adler32_spec_step (take off buffer) (1, 0)") blast
  with red have lw: "lw = of_nat lo" and uw: "uw = of_nat hi"
    by (simp_all add: adler32_reduced_def)
  from spec_fold_bounded [OF f0] have lo: "lo < 65521" and hi: "hi < 65521" by simp_all
  let ?chunk = "take m (drop off buffer)"
  have lc: "length ?chunk = m" using len by simp
  obtain lo' hi' where f1: "fold sum_step ?chunk (lo, hi) = (lo', hi')"
    by (cases "fold sum_step ?chunk (lo, hi)") blast
  have run: "(adler32_byte buffer ^^ m) (off, lw, uw) = (off + m, of_nat lo', of_nat hi')"
    unfolding lw uw by (rule adler32_byte_funpow [OF len f1])
  from sums_bound [OF f1] have b1: "lo' \<le> lo + 255 * m"
    and b2: "2 * hi' \<le> 2 * hi + 2 * m * lo + 255 * (m * (m + 1))"
    unfolding lc by blast+
  have "m * lo \<le> 5552 * 65520" using m lo by (intro mult_mono) simp_all
  moreover have "m * (m + 1) \<le> 5552 * 5553" using m by (intro mult_mono) simp_all
  ultimately have hb: "hi' < 2 ^ 32" using b2 hi by simp
  have lb: "lo' < 2 ^ 32" using b1 lo m by simp
  have ul: "unat (of_nat lo' :: 32 word) = lo'" using lb by (simp add: unat_of_nat)
  have uh: "unat (of_nat hi' :: 32 word) = hi'" using hb by (simp add: unat_of_nat)
  have ml: "adler32_modulo (of_nat lo') = of_nat (lo' mod 65521)"
    by (rule word_eq_of_unat) (simp add: unat_adler32_modulo ul)
  have mh: "adler32_modulo (of_nat hi') = of_nat (hi' mod 65521)"
    by (rule word_eq_of_unat) (simp add: unat_adler32_modulo uh)
  have t: "take (off + m) buffer = take off buffer @ ?chunk"
    by (simp add: take_add)
  have "fold adler32_spec_step ?chunk (lo mod 65521, hi mod 65521) = (lo' mod 65521, hi' mod 65521)"
    by (rule sums_mod [OF f1])
  then have "fold adler32_spec_step (take (off + m) buffer) (1, 0) = (lo' mod 65521, hi' mod 65521)"
    unfolding t using lo hi f0 by simp
  then have "adler32_reduced buffer (off + m, adler32_modulo (of_nat lo'), adler32_modulo (of_nat hi'))"
    by (simp add: adler32_reduced_def ml mh)
  with run show ?thesis by blast
qed


text \<open>The loops of the source in terms of single steps.\<close>

lemma adler32_rest_funpow: "adler32_rest buffer n s = (adler32_byte buffer ^^ n) s"
  by (induction n arbitrary: s) (simp_all add: funpow_swap1)

lemma adler32_rest16_funpow:
  "adler32_rest16 buffer n s = (n', s') \<Longrightarrow>
   (adler32_byte buffer ^^ n') s' = (adler32_byte buffer ^^ n) s"
proof (induction n arbitrary: s rule: less_induct)
  case (less n)
  show ?case
  proof (cases "n > 16")
    case False
    with less.prems show ?thesis by (subst (asm) adler32_rest16.simps) simp
  next
    case True
    with less.prems have r: "adler32_rest16 buffer (n - 16) (adler32_bytes16 buffer s) = (n', s')"
      by (subst (asm) adler32_rest16.simps) simp
    have "n - 16 < n" using True by simp
    from less.IH [OF this r]
    have "(adler32_byte buffer ^^ n') s' = (adler32_byte buffer ^^ (n - 16)) ((adler32_byte buffer ^^ 16) s)"
      by (simp add: adler32_bytes16_def)
    also have "\<dots> = (adler32_byte buffer ^^ ((n - 16) + 16)) s"
      by (simp only: funpow_add o_apply)
    also have "(n - 16) + 16 = n" using True by simp
    finally show ?thesis .
  qed
qed

lemma adler32_bytes16_347:
  "(adler32_bytes16 buffer ^^ 347) s = (adler32_byte buffer ^^ 5552) s"
proof -
  have "adler32_bytes16 buffer = adler32_byte buffer ^^ 16"
    by (rule ext) (simp add: adler32_bytes16_def)
  then have "adler32_bytes16 buffer ^^ 347 = adler32_byte buffer ^^ (16 * 347)"
    by (simp only: funpow_mult)
  then show ?thesis by simp
qed

lemma adler32_blocks_reduced:
  assumes "adler32_reduced buffer (off, lw, uw)" "off + n \<le> length buffer"
  shows "\<exists>n' off' lw' uw'. adler32_blocks buffer n (off, lw, uw) = (n', off', lw', uw') \<and>
           n' < 5552 \<and> off' + n' = off + n \<and> adler32_reduced buffer (off', lw', uw')"
  using assms
proof (induction n arbitrary: off lw uw rule: less_induct)
  case (less n)
  show ?case
  proof (cases "n \<ge> 5552")
    case False
    then have "adler32_blocks buffer n (off, lw, uw) = (n, off, lw, uw)"
      by (subst adler32_blocks.simps) simp
    with False less.prems(1) show ?thesis by simp
  next
    case True
    have len: "off + 5552 \<le> length buffer" using True less.prems(2) by simp
    from adler32_chunk [OF less.prems(1) len] obtain lw1 uw1 where
      run: "(adler32_byte buffer ^^ 5552) (off, lw, uw) = (off + 5552, lw1, uw1)" and
      red: "adler32_reduced buffer (off + 5552, adler32_modulo lw1, adler32_modulo uw1)"
      by auto
    have step: "adler32_blocks buffer n (off, lw, uw) =
          adler32_blocks buffer (n - 5552) (off + 5552, adler32_modulo lw1, adler32_modulo uw1)"
      using True by (subst adler32_blocks.simps) (simp add: adler32_bytes16_347 run)
    have lt: "n - 5552 < n" using True by simp
    have len': "off + 5552 + (n - 5552) \<le> length buffer" using True less.prems(2) by simp
    from less.IH [OF lt red len'] True show ?thesis unfolding step by auto
  qed
qed


text \<open>
  Claim C10.  For every buffer and every size within it,
  \<^verbatim>\<open>deflate_calculate_adler32\<close> with the initial value 1, which reduces the sums only
  once per 5552 bytes, computes the reference Adler-32 of the bytes.
\<close>

theorem adler32_refines_reference:
  assumes "size' \<le> length buffer" "size' \<le> SSIZE_MAX"
  shows "deflate_calculate_adler32 buffer size' 1 = Inr (adler32_spec (take size' buffer))"
proof -
  have init: "adler32_reduced buffer (0, 1, 0)"
    by (simp add: adler32_reduced_def)
  have len0: "0 + size' \<le> length buffer" using assms(1) by simp
  from adler32_blocks_reduced [OF init len0] obtain n off lw uw where
    blocks: "adler32_blocks buffer size' (0, 1, 0) = (n, off, lw, uw)" and
    n: "n < 5552" and off: "off + n = size'" and red: "adler32_reduced buffer (off, lw, uw)"
    by auto
  have "\<exists>lw' uw'.
          (if n > 0 then
             case adler32_rest16 buffer n (off, lw, uw) of
               (n', s) \<Rightarrow>
                 case adler32_rest buffer n' s of
                   (buffer_offset, lower_word, upper_word) \<Rightarrow>
                     (buffer_offset, adler32_modulo lower_word, adler32_modulo upper_word)
           else (off, lw, uw)) = (size', lw', uw')
          \<and> adler32_reduced buffer (size', lw', uw')"
  proof (cases "n > 0")
    case False
    with off red show ?thesis by simp
  next
    case True
    obtain n' s where r16: "adler32_rest16 buffer n (off, lw, uw) = (n', s)"
      by (cases "adler32_rest16 buffer n (off, lw, uw)") blast
    have len: "off + n \<le> length buffer" using off assms(1) by simp
    have m: "n \<le> 5552" using n by simp
    from adler32_chunk [OF red len m] obtain lw1 uw1 where
      run: "(adler32_byte buffer ^^ n) (off, lw, uw) = (off + n, lw1, uw1)" and
      red1: "adler32_reduced buffer (off + n, adler32_modulo lw1, adler32_modulo uw1)"
      by auto
    have "adler32_rest buffer n' s = (off + n, lw1, uw1)"
      unfolding adler32_rest_funpow adler32_rest16_funpow [OF r16] by (rule run)
    with True r16 red1 off show ?thesis by simp
  qed
  then obtain lw' uw' where
    tail: "(if n > 0 then
             case adler32_rest16 buffer n (off, lw, uw) of
               (n', s) \<Rightarrow>
                 case adler32_rest buffer n' s of
                   (buffer_offset, lower_word, upper_word) \<Rightarrow>
                     (buffer_offset, adler32_modulo lower_word, adler32_modulo upper_word)
           else (off, lw, uw)) = (size', lw', uw')"
    and red': "adler32_reduced buffer (size', lw', uw')"
    by blast
  have i1: "(1 :: 32 word) AND 0xffff = 1" by simp
  have i2: "drop_bit 16 (1 :: 32 word) AND 0xffff = 0" by simp
  have "deflate_calculate_adler32 buffer size' 1 = Inr (push_bit 16 uw' OR lw')"
    unfolding deflate_calculate_adler32_def Let_def i1 i2
    using assms(2) by (simp add: blocks tail)
  moreover have "push_bit 16 uw' OR lw' = adler32_spec (take size' buffer)"
    using red' unfolding adler32_reduced_def adler32_spec_def
    by (auto split: prod.splits)
  ultimately show ?thesis by simp
qed

text \<open>The Adler-32 of the single byte \<open>0x41\<close> is \<open>0x00420042\<close>.\<close>

theorem adler32_refines_reference_witness:
  "deflate_calculate_adler32 [0x41] 1 1 = Inr 0x00420042"
proof -
  have "adler32_spec (take 1 [0x41]) = 0x00420042"
    by (simp add: adler32_spec_def adler32_spec_step_simp)
  with adler32_refines_reference [of 1 "[0x41]"] show ?thesis
    by (simp add: SSIZE_MAX_def)
qed


section \<open>Expanding a back-reference\<close>

text \<open>The copy loop writes byte after byte; every byte written equals the byte
  \<open>d\<close> positions before it, and the bytes before the cursor are left alone.\<close>

lemma copy_match_props:
  assumes "d \<le> c" "c + n \<le> length out"
  shows "\<exists>out'. copy_match out c d n = (out', c + n) \<and> length out' = length out \<and>
           (\<forall>j<c. out' ! j = out ! j) \<and>
           (\<forall>i<n. out' ! (c + i) = out' ! (c - d + i))"
  using assms
proof (induction n arbitrary: out c)
  case 0
  then show ?case by simp
next
  case (Suc n)
  let ?out1 = "out [c := out ! (c - d)]"
  have d1: "d \<le> c + 1" using Suc.prems(1) by simp
  have l1: "c + 1 + n \<le> length ?out1" using Suc.prems(2) by simp
  from Suc.IH [OF d1 l1] obtain out' where
    r: "copy_match ?out1 (c + 1) d n = (out', c + 1 + n)" and
    len: "length out' = length ?out1" and
    pre: "\<forall>j<c + 1. out' ! j = ?out1 ! j" and
    cp: "\<forall>i<n. out' ! (c + 1 + i) = out' ! (c + 1 - d + i)"
    by blast
  have cl: "c < length out" using Suc.prems(2) by simp
  have res: "copy_match out c d (Suc n) = (out', c + Suc n)" using r by simp
  have pre': "\<forall>j<c. out' ! j = out ! j"
  proof (intro allI impI)
    fix j assume j: "j < c"
    then have "out' ! j = ?out1 ! j" using pre by simp
    also have "\<dots> = out ! j" using j by simp
    finally show "out' ! j = out ! j" .
  qed
  have cp': "\<forall>i<Suc n. out' ! (c + i) = out' ! (c - d + i)"
  proof (intro allI impI)
    fix i assume i: "i < Suc n"
    show "out' ! (c + i) = out' ! (c - d + i)"
    proof (cases i)
      case 0
      have "out' ! c = ?out1 ! c" using pre by simp
      also have "\<dots> = out ! (c - d)" using cl by simp
      finally have a: "out' ! c = out ! (c - d)" .
      show ?thesis
      proof (cases "d = 0")
        case True
        with 0 show ?thesis by simp
      next
        case False
        then have lt: "c - d < c" using Suc.prems(1) by simp
        then have "out' ! (c - d) = out ! (c - d)" using pre' by simp
        with a 0 show ?thesis by simp
      qed
    next
      case (Suc i')
      with i have "i' < n" by simp
      with cp have "out' ! (c + 1 + i') = out' ! (c + 1 - d + i')" by blast
      moreover have "c + 1 - d + i' = c - d + i" using Suc.prems(1) Suc by simp
      moreover have "c + 1 + i' = c + i" using Suc by simp
      ultimately show ?thesis by (simp only:)
    qed
  qed
  from res len pre' cp' show ?case by auto
qed

lemma copy_pattern:
  assumes cp: "\<forall>i<n. out' ! (c + i) = out' ! (c - d + i)"
    and pre: "\<forall>j<c. out' ! j = out ! j" and d: "1 \<le> d" "d \<le> c"
  shows "i < n \<Longrightarrow> out' ! (c + i) = out ! (c - d + i mod d)"
proof (induction i rule: less_induct)
  case (less i)
  have a: "out' ! (c + i) = out' ! (c - d + i)" using cp less.prems by simp
  show ?case
  proof (cases "i < d")
    case True
    then have "c - d + i < c" using d by simp
    then have "out' ! (c - d + i) = out ! (c - d + i)" using pre by simp
    with a True show ?thesis by simp
  next
    case False
    then have ge: "d \<le> i" by simp
    have lt: "i - d < i" using ge d by simp
    have n': "i - d < n" using less.prems by simp
    have "c - d + i = c + (i - d)" using ge d by simp
    with a have "out' ! (c + i) = out' ! (c + (i - d))" by simp
    also have "\<dots> = out ! (c - d + (i - d) mod d)" by (rule less.IH [OF lt n'])
    also have "(i - d) mod d = i mod d" using ge by (simp add: le_mod_geq)
    finally show ?thesis .
  qed
qed


text \<open>
  Claim C9.  For a decoded pair of distance \<^verbatim>\<open>compression_offset\<close> and length
  \<^verbatim>\<open>compression_size\<close>, with the output cursor \<^verbatim>\<open>data_offset\<close> and an output
  buffer that has the capacity \<^verbatim>\<open>uncompressed_data_size\<close>: a distance beyond the cursor
  fails with \<open>BadDistance\<close>; otherwise a length beyond the capacity fails with
  \<open>OutputOverflow\<close>; otherwise the cursor advances by the length, the bytes before the
  cursor are unchanged, every new byte equals the byte one distance before it in the
  result, and so the new bytes repeat the last \<open>distance\<close> bytes before the cursor, also
  when the distance is smaller than the length.
\<close>

theorem copy_compressed_spec:
  assumes "uncompressed_data_size \<le> length uncompressed_data"
  shows "(data_offset < unat compression_offset \<longrightarrow>
            copy_compressed uncompressed_data uncompressed_data_size data_offset
              compression_offset compression_size = Inl BadDistance)
       \<and> (unat compression_offset \<le> data_offset
            \<and> uncompressed_data_size < data_offset + unat compression_size \<longrightarrow>
            copy_compressed uncompressed_data uncompressed_data_size data_offset
              compression_offset compression_size = Inl OutputOverflow)
       \<and> (unat compression_offset \<le> data_offset
            \<and> data_offset + unat compression_size \<le> uncompressed_data_size \<longrightarrow>
            (\<exists>out'. copy_compressed uncompressed_data uncompressed_data_size data_offset
                       compression_offset compression_size
                     = Inr (out', data_offset + unat compression_size)
               \<and> length out' = length uncompressed_data
               \<and> (\<forall>j<data_offset. out' ! j = uncompressed_data ! j)
               \<and> (\<forall>i<unat compression_size.
                      out' ! (data_offset + i)
                      = out' ! (data_offset - unat compression_offset + i))
               \<and> (1 \<le> unat compression_offset \<longrightarrow>
                    (\<forall>i<unat compression_size.
                       out' ! (data_offset + i)
                       = uncompressed_data
                           ! (data_offset - unat compression_offset
                              + i mod unat compression_offset)))))"
proof (intro conjI impI)
  assume "data_offset < unat compression_offset"
  then show "copy_compressed uncompressed_data uncompressed_data_size data_offset
              compression_offset compression_size = Inl BadDistance"
    by (simp add: copy_compressed_def)
next
  assume "unat compression_offset \<le> data_offset
            \<and> uncompressed_data_size < data_offset + unat compression_size"
  then show "copy_compressed uncompressed_data uncompressed_data_size data_offset
              compression_offset compression_size = Inl OutputOverflow"
    by (simp add: copy_compressed_def)
next
  let ?d = "unat compression_offset" and ?n = "unat compression_size"
  assume a: "?d \<le> data_offset \<and> data_offset + ?n \<le> uncompressed_data_size"
  then have d: "?d \<le> data_offset" and len: "data_offset + ?n \<le> length uncompressed_data"
    using assms by simp_all
  from copy_match_props [OF d len] obtain out' where
    r: "copy_match uncompressed_data data_offset ?d ?n = (out', data_offset + ?n)" and
    l: "length out' = length uncompressed_data" and
    pre: "\<forall>j<data_offset. out' ! j = uncompressed_data ! j" and
    cp: "\<forall>i<?n. out' ! (data_offset + i) = out' ! (data_offset - ?d + i)"
    by blast
  have res: "copy_compressed uncompressed_data uncompressed_data_size data_offset
               compression_offset compression_size = Inr (out', data_offset + ?n)"
    using a r by (simp add: copy_compressed_def)
  have pat: "\<forall>i<?n. out' ! (data_offset + i) = uncompressed_data ! (data_offset - ?d + i mod ?d)"
    if "1 \<le> ?d"
    using copy_pattern [OF cp pre that d] by blast
  from res l pre cp pat
  show "\<exists>out'. copy_compressed uncompressed_data uncompressed_data_size data_offset
                       compression_offset compression_size
                     = Inr (out', data_offset + ?n)
               \<and> length out' = length uncompressed_data
               \<and> (\<forall>j<data_offset. out' ! j = uncompressed_data ! j)
               \<and> (\<forall>i<?n. out' ! (data_offset + i) = out' ! (data_offset - ?d + i))
               \<and> (1 \<le> ?d \<longrightarrow>
                    (\<forall>i<?n. out' ! (data_offset + i)
                       = uncompressed_data ! (data_offset - ?d + i mod ?d)))"
    by blast
qed

text \<open>
  The literal \<open>a\<close> followed by a match of length 9 at distance 1 gives ten times
  \<open>a\<close>; a distance of 2 at the cursor 1 is refused.
\<close>

theorem copy_compressed_spec_witness:
  "copy_compressed (0x61 # replicate 9 0) 10 1 1 9 = Inr (replicate 10 0x61, 10)
   \<and> copy_compressed (0x61 # replicate 9 0) 10 1 2 9 = Inl BadDistance"
proof -
  let ?out = "0x61 # replicate 9 (0 :: 8 word)"
  have cap: "10 \<le> length ?out" by simp
  from copy_compressed_spec [OF cap, of 1 1 9] obtain out' where
    r: "copy_compressed ?out 10 1 1 9 = Inr (out', 10)" and
    l: "length out' = 10" and
    p: "\<forall>i<9. out' ! (1 + i) = ?out ! 0" and
    q: "\<forall>j<1. out' ! j = ?out ! j"
    by auto
  have "out' = replicate 10 0x61"
  proof (rule nth_equalityI)
    show "length out' = length (replicate 10 (0x61 :: 8 word))" using l by simp
  next
    fix i assume "i < length out'"
    then have i: "i < 10" using l by simp
    show "out' ! i = replicate 10 0x61 ! i"
    proof (cases i)
      case 0
      with q show ?thesis by simp
    next
      case (Suc k)
      with i have "k < 9" by simp
      with p have "out' ! (1 + k) = 0x61" by simp
      with Suc i show ?thesis by simp
    qed
  qed
  with r have 1: "copy_compressed ?out 10 1 1 9 = Inr (replicate 10 0x61, 10)" by simp
  from copy_compressed_spec [OF cap, of 1 2 9]
  have 2: "copy_compressed ?out 10 1 2 9 = Inl BadDistance" by simp
  from 1 2 show ?thesis by simp
qed


section \<open>The fixed Huffman tables\<close>

text \<open>The two tables that \<^verbatim>\<open>deflate_initialize_fixed_huffman_tables\<close> builds, written
  out: the literals sorted by code size (7, 8 and 9 bits) and the 30 distances of 5 bits.\<close>

definition fixed_literals_table :: deflate_huffman_table where
  "fixed_literals_table =
     \<lparr> maximum_number_of_bits = 15,
       codes_array = map int ([256..<280] @ [0..<144] @ [280..<288] @ [144..<256]),
       code_counts_array = [0, 0, 0, 0, 0, 0, 0, 24, 152, 112, 0, 0, 0, 0, 0, 0],
       number_of_codes = 16 \<rparr>"

definition fixed_distances_table :: deflate_huffman_table where
  "fixed_distances_table =
     \<lparr> maximum_number_of_bits = 15,
       codes_array = map int [0..<30] @ replicate 258 0,
       code_counts_array = [0, 0, 0, 0, 0, 30, 0, 0, 0, 0, 0, 0, 0, 0, 0, 0],
       number_of_codes = 16 \<rparr>"

lemma fixed_tables_value:
  "deflate_initialize_fixed_huffman_tables = Inr (fixed_literals_table, fixed_distances_table)"
  by code_simp

section \<open>A stream with a wrong checksum\<close>

text \<open>
  The zlib stream of the single byte \<open>A\<close>, one fixed-Huffman block, is
  \<^verbatim>\<open>78 9C 73 04 00 00 42 00 42\<close>.  In \<open>literal_A_stream\<close> the last byte of its Adler-32
  has been complemented.  The following lemmas run the decoder on it step by step.
\<close>

definition literal_A_stream :: "8 word list" where
  "literal_A_stream = [0x78, 0x9C, 0x73, 0x04, 0x00, 0x00, 0x42, 0x00, 0xBD]"

lemma literal_A_header:
  "read_zlib_header literal_A_stream 9 =
   Inr (\<lparr>byte_stream = literal_A_stream, byte_stream_size = 7, byte_stream_offset = 2,
          bit_buffer = 0, bit_buffer_size = 0\<rparr>, 0)"
  by code_simp

lemma literal_A_block_header:
  "deflate_bit_stream_get_value
     \<lparr>byte_stream = literal_A_stream, byte_stream_size = 7, byte_stream_offset = 2,
      bit_buffer = 0, bit_buffer_size = 0\<rparr> 3 =
   Inr (3, \<lparr>byte_stream = literal_A_stream, byte_stream_size = 7, byte_stream_offset = 3,
             bit_buffer = 14, bit_buffer_size = 5\<rparr>)"
  by code_simp

lemma literal_A_symbol_1:
  "deflate_bit_stream_get_huffman_encoded_value
     \<lparr>byte_stream = literal_A_stream, byte_stream_size = 7, byte_stream_offset = 3,
      bit_buffer = 14, bit_buffer_size = 5\<rparr> fixed_literals_table =
   Inr (0x41, \<lparr>byte_stream = literal_A_stream, byte_stream_size = 7, byte_stream_offset = 5,
                bit_buffer = 0, bit_buffer_size = 13\<rparr>)"
  by code_simp

lemma literal_A_symbol_2:
  "deflate_bit_stream_get_huffman_encoded_value
     \<lparr>byte_stream = literal_A_stream, byte_stream_size = 7, byte_stream_offset = 5,
      bit_buffer = 0, bit_buffer_size = 13\<rparr> fixed_literals_table =
   Inr (256, \<lparr>byte_stream = literal_A_stream, byte_stream_size = 7, byte_stream_offset = 6,
               bit_buffer = 0, bit_buffer_size = 14\<rparr>)"
  by code_simp

lemma literal_A_huffman:
  "decode_huffman_loop
     \<lparr>byte_stream = literal_A_stream, byte_stream_size = 7, byte_stream_offset = 3,
      bit_buffer = 14, bit_buffer_size = 5\<rparr>
     fixed_literals_table fixed_distances_table [0, 0] 2 0 =
   Inr (\<lparr>byte_stream = literal_A_stream, byte_stream_size = 7, byte_stream_offset = 6,
          bit_buffer = 0, bit_buffer_size = 14\<rparr>, [0x41, 0], 1)"
  apply (subst decode_huffman_loop.simps)
  apply (simp add: literal_A_symbol_1)
  apply (subst decode_huffman_loop.simps)
  apply (simp add: literal_A_symbol_2)
  done

lemma literal_A_blocks:
  "decode_blocks
     \<lparr>byte_stream = literal_A_stream, byte_stream_size = 7, byte_stream_offset = 2,
      bit_buffer = 0, bit_buffer_size = 0\<rparr>
     fixed_literals_table fixed_distances_table [0, 0] 2 0 =
   Inr (\<lparr>byte_stream = literal_A_stream, byte_stream_size = 7, byte_stream_offset = 6,
          bit_buffer = 0, bit_buffer_size = 14\<rparr>, [0x41, 0], 1)"
  apply (subst decode_blocks.simps)
  apply (simp add: literal_A_block_header decode_block_def deflate_decode_huffman_def
                   SSIZE_MAX_def literal_A_huffman)
  done

text \<open>
  Claim C3 (the source does not do this).  The stream decodes successfully to the byte
  \<open>A\<close> although the stored Adler-32 is \<open>0x004200BD\<close> and the Adler-32 of the output
  is \<open>0x00420042\<close>.  The size of the bit stream has been reduced by the two bytes of the
  header while the offset counts from the start of the buffer, so after the last block
  only one byte lies between the offset and the size, and the comparison is skipped.
\<close>

theorem checksum_not_verified:
  "deflate_decompress literal_A_stream 9 [0, 0] 2 = Inr ([0x41, 0], 1)"
  by (simp add: deflate_decompress_def SSIZE_MAX_def literal_A_header fixed_tables_value
                literal_A_blocks verify_checksum_def)


section \<open>A stored block\<close>

text \<open>
  \<open>stored_A_stream\<close> is the zlib stream of the single byte \<open>A\<close> as one stored block:
  the header \<^verbatim>\<open>78 01\<close>, the block header \<^verbatim>\<open>01\<close>, \<open>LEN = 0x0001\<close>,
  \<open>NLEN = 0xFFFE\<close>, the byte and its Adler-32.
\<close>

definition stored_A_stream :: "8 word list" where
  "stored_A_stream = [0x78, 0x01, 0x01, 0x01, 0x00, 0xFE, 0xFF, 0x41, 0x00, 0x42, 0x00, 0x42]"

lemma stored_A_header:
  "read_zlib_header stored_A_stream 12 =
   Inr (\<lparr>byte_stream = stored_A_stream, byte_stream_size = 10, byte_stream_offset = 2,
          bit_buffer = 0, bit_buffer_size = 0\<rparr>, 0)"
  by code_simp

lemma stored_A_block_header:
  "deflate_bit_stream_get_value
     \<lparr>byte_stream = stored_A_stream, byte_stream_size = 10, byte_stream_offset = 2,
      bit_buffer = 0, bit_buffer_size = 0\<rparr> 3 =
   Inr (1, \<lparr>byte_stream = stored_A_stream, byte_stream_size = 10, byte_stream_offset = 3,
             bit_buffer = 0, bit_buffer_size = 5\<rparr>)"
  by code_simp

lemma stored_A_block:
  "decode_uncompressed_block
     \<lparr>byte_stream = stored_A_stream, byte_stream_size = 10, byte_stream_offset = 3,
      bit_buffer = 0, bit_buffer_size = 5\<rparr> [0, 0] 2 0 = Inl LengthMismatch"
  by code_simp

lemma stored_A_blocks:
  "decode_blocks
     \<lparr>byte_stream = stored_A_stream, byte_stream_size = 10, byte_stream_offset = 2,
      bit_buffer = 0, bit_buffer_size = 0\<rparr>
     fixed_literals_table fixed_distances_table [0, 0] 2 0 = Inl LengthMismatch"
  apply (subst decode_blocks.simps)
  apply (simp add: stored_A_block_header decode_block_def stored_A_block)
  done

text \<open>
  Claim C1 (the source does not do this).  \<open>stored_A_stream\<close> is what a conforming
  compressor produces for the byte \<open>A\<close> at compression level 0; the decoder rejects it.
\<close>

theorem stored_stream_not_decoded:
  "deflate_decompress stored_A_stream 12 [0, 0] 2 = Inl LengthMismatch"
  by (simp add: deflate_decompress_def SSIZE_MAX_def stored_A_header fixed_tables_value
                stored_A_blocks)

text \<open>
  \<open>stored_256_stream\<close> holds one stored block with the 256 bytes \<open>00\<close> to \<open>FF\<close>:
  \<open>LEN = 0x0100\<close> and \<open>NLEN = 0xFEFF\<close>, followed by the Adler-32 of the bytes.
\<close>

definition stored_256_stream :: "8 word list" where
  "stored_256_stream =
     [0x78, 0x01, 0x01, 0x00, 0x01, 0xFF, 0xFE] @ map of_nat [0..<256] @ [0xAD, 0xF6, 0x7F, 0x81]"

lemma stored_256_header:
  "read_zlib_header stored_256_stream 267 =
   Inr (\<lparr>byte_stream = stored_256_stream, byte_stream_size = 265, byte_stream_offset = 2,
          bit_buffer = 0, bit_buffer_size = 0\<rparr>, 0)"
  by code_simp

lemma stored_256_block_header:
  "deflate_bit_stream_get_value
     \<lparr>byte_stream = stored_256_stream, byte_stream_size = 265, byte_stream_offset = 2,
      bit_buffer = 0, bit_buffer_size = 0\<rparr> 3 =
   Inr (1, \<lparr>byte_stream = stored_256_stream, byte_stream_size = 265, byte_stream_offset = 3,
             bit_buffer = 0, bit_buffer_size = 5\<rparr>)"
  by code_simp

lemma stored_256_block:
  "decode_uncompressed_block
     \<lparr>byte_stream = stored_256_stream, byte_stream_size = 265, byte_stream_offset = 3,
      bit_buffer = 0, bit_buffer_size = 5\<rparr> (replicate 256 0) 256 0 = Inl LengthMismatch"
  by code_simp

lemma stored_256_blocks:
  "decode_blocks
     \<lparr>byte_stream = stored_256_stream, byte_stream_size = 265, byte_stream_offset = 2,
      bit_buffer = 0, bit_buffer_size = 0\<rparr>
     fixed_literals_table fixed_distances_table (replicate 256 0) 256 0 = Inl LengthMismatch"
  apply (subst decode_blocks.simps)
  apply (simp add: stored_256_block_header decode_block_def stored_256_block)
  done

text \<open>
  Claim C2 (the source does not do this).  The stored block with \<open>LEN = 256\<close> and the
  matching \<open>NLEN = 0xFEFF\<close> is rejected with a length mismatch.  The source compares
  \<^verbatim>\<open>block_size\<close> with \<^verbatim>\<open>( block_size >> 16 ) ^ 0x0000ffffUL\<close> after
  \<^verbatim>\<open>block_size\<close> has been masked to its lower 16 bits: the right-hand side is always
  \<open>0xFFFF\<close>, whatever \<open>NLEN\<close> is.
\<close>

theorem stored_block_length_mismatch:
  "deflate_decompress stored_256_stream 267 (replicate 256 0) 256 = Inl LengthMismatch"
  by (simp add: deflate_decompress_def SSIZE_MAX_def stored_256_header fixed_tables_value
                stored_256_blocks)


section \<open>A header with a preset dictionary\<close>

text \<open>
  \<open>preset_dictionary_stream\<close> has the preset dictionary flag set in its second byte
  (\<^verbatim>\<open>20\<close>), the identifier \<^verbatim>\<open>12 34 56 78\<close>, an empty final fixed-Huffman block
  (\<^verbatim>\<open>03 00\<close>) and six more bytes.
\<close>

definition preset_dictionary_stream :: "8 word list" where
  "preset_dictionary_stream =
     [0x78, 0x20, 0x12, 0x34, 0x56, 0x78, 0x03, 0x00, 0x00, 0x00, 0x00, 0x00, 0x00, 0x00]"

lemma preset_dictionary_header:
  "read_zlib_header preset_dictionary_stream 14 =
   Inr (\<lparr>byte_stream = preset_dictionary_stream, byte_stream_size = 8, byte_stream_offset = 6,
          bit_buffer = 0, bit_buffer_size = 0\<rparr>, 0x12345678)"
  by code_simp

lemma preset_dictionary_block_header:
  "deflate_bit_stream_get_value
     \<lparr>byte_stream = preset_dictionary_stream, byte_stream_size = 8, byte_stream_offset = 6,
      bit_buffer = 0, bit_buffer_size = 0\<rparr> 3 =
   Inr (3, \<lparr>byte_stream = preset_dictionary_stream, byte_stream_size = 8,
             byte_stream_offset = 7, bit_buffer = 0, bit_buffer_size = 5\<rparr>)"
  by code_simp

lemma preset_dictionary_symbol:
  "deflate_bit_stream_get_huffman_encoded_value
     \<lparr>byte_stream = preset_dictionary_stream, byte_stream_size = 8, byte_stream_offset = 7,
      bit_buffer = 0, bit_buffer_size = 5\<rparr> fixed_literals_table =
   Inr (256, \<lparr>byte_stream = preset_dictionary_stream, byte_stream_size = 8,
               byte_stream_offset = 8, bit_buffer = 0, bit_buffer_size = 6\<rparr>)"
  by code_simp

lemma preset_dictionary_blocks:
  "decode_blocks
     \<lparr>byte_stream = preset_dictionary_stream, byte_stream_size = 8, byte_stream_offset = 6,
      bit_buffer = 0, bit_buffer_size = 0\<rparr>
     fixed_literals_table fixed_distances_table [] 0 0 =
   Inr (\<lparr>byte_stream = preset_dictionary_stream, byte_stream_size = 8, byte_stream_offset = 8,
          bit_buffer = 0, bit_buffer_size = 6\<rparr>, [], 0)"
  apply (subst decode_blocks.simps)
  apply (simp add: preset_dictionary_block_header decode_block_def deflate_decode_huffman_def
                   SSIZE_MAX_def)
  apply (subst decode_huffman_loop.simps)
  apply (simp add: preset_dictionary_symbol)
  done

text \<open>
  The claim C5 as stated fails here: the preset dictionary flag is set, and the decoder
  succeeds with an empty output.
\<close>

theorem preset_dictionary_accepted:
  "preset_dictionary_stream ! 1 AND 0x20 \<noteq> 0
   \<and> deflate_decompress preset_dictionary_stream 14 [] 0 = Inr ([], 0)"
  by (simp add: deflate_decompress_def SSIZE_MAX_def preset_dictionary_header
                fixed_tables_value preset_dictionary_blocks verify_checksum_def)
     (simp add: preset_dictionary_stream_def)


section \<open>The length check of a stored block\<close>


lemma drop_bit_16_low_half: "drop_bit 16 (w AND 0x0000ffff) = (0 :: 32 word)"
proof -
  have "w AND 0x0000ffff = take_bit 16 w"
    by (simp add: take_bit_eq_mask mask_eq_exp_minus_1)
  moreover have "drop_bit 16 (take_bit 16 w) = 0"
    by (rule bit_eqI) (simp add: bit_simps)
  ultimately show ?thesis by simp
qed

text \<open>
  The length check of a stored block, for any state in which the bit buffer holds whole
  bytes: the block is rejected whenever \<open>LEN\<close>, the lower half of the 32 bits read, is
  not \<open>0xFFFF\<close>; the upper half, \<open>NLEN\<close>, has no influence.
\<close>

lemma stored_block_rejected_unless_len_ffff:
  assumes "bit_buffer_size bs AND 0x07 = 0"
    and "deflate_bit_stream_get_value bs 32 = Inr (block_size, bs')"
    and "block_size AND 0x0000ffff \<noteq> 0x0000ffff"
  shows "decode_uncompressed_block bs out cap off = Inl LengthMismatch"
  using assms by (simp add: decode_uncompressed_block_def Let_def drop_bit_16_low_half)


section \<open>The bytes beyond the recorded stream size are never read\<close>

definition with_stream :: "8 word list \<Rightarrow> deflate_bit_stream \<Rightarrow> deflate_bit_stream" where
  "with_stream d bs = bs\<lparr> byte_stream := d \<rparr>"

definition lift_result :: "('a \<Rightarrow> 'b) \<Rightarrow> error + 'a \<Rightarrow> error + 'b" where
  "lift_result f r = (case r of Inl e \<Rightarrow> Inl e | Inr x \<Rightarrow> Inr (f x))"

lemma lift_result_simps [simp]:
  "lift_result f (Inl e) = Inl e"
  "lift_result f (Inr x) = Inr (f x)"
  by (simp_all add: lift_result_def)

definition agrees :: "8 word list \<Rightarrow> deflate_bit_stream \<Rightarrow> bool" where
  "agrees d bs \<longleftrightarrow>
     take (byte_stream_size bs) d = take (byte_stream_size bs) (byte_stream bs)"

definition same_stream :: "deflate_bit_stream \<Rightarrow> deflate_bit_stream \<Rightarrow> bool" where
  "same_stream bs bs' \<longleftrightarrow>
     byte_stream bs' = byte_stream bs \<and> byte_stream_size bs' = byte_stream_size bs"

lemma same_stream_refl [simp]: "same_stream bs bs"
  by (simp add: same_stream_def)

lemma same_stream_trans: "same_stream a b \<Longrightarrow> same_stream b c \<Longrightarrow> same_stream a c"
  by (simp add: same_stream_def)

lemma agrees_same_stream: "agrees d bs \<Longrightarrow> same_stream bs bs' \<Longrightarrow> agrees d bs'"
  by (simp add: agrees_def same_stream_def)

lemma with_stream_fields [simp]:
  "byte_stream (with_stream d bs) = d"
  "byte_stream_size (with_stream d bs) = byte_stream_size bs"
  "byte_stream_offset (with_stream d bs) = byte_stream_offset bs"
  "bit_buffer (with_stream d bs) = bit_buffer bs"
  "bit_buffer_size (with_stream d bs) = bit_buffer_size bs"
  by (simp_all add: with_stream_def)

lemma with_stream_update [simp]:
  "with_stream d (bs\<lparr> bit_buffer := b, bit_buffer_size := n \<rparr>)
   = (with_stream d bs)\<lparr> bit_buffer := b, bit_buffer_size := n \<rparr>"
  by (simp add: with_stream_def)

lemma agrees_nth:
  "agrees d bs \<Longrightarrow> i < byte_stream_size bs \<Longrightarrow> d ! i = byte_stream bs ! i"
  unfolding agrees_def by (metis nth_take)

lemma refill_same_stream: "same_stream bs (refill bs)"
  by (simp add: same_stream_def refill_def)

lemma refill_with_stream:
  "agrees d bs \<Longrightarrow> byte_stream_offset bs < byte_stream_size bs \<Longrightarrow>
   refill (with_stream d bs) = with_stream d (refill bs)"
  by (simp add: refill_def with_stream_def agrees_nth)

lemma get_value_fill_same_stream:
  "get_value_fill bs n = Inr bs1 \<Longrightarrow> same_stream bs bs1"
proof (induction bs n rule: get_value_fill.induct)
  case (1 bs n)
  show ?case
  proof (cases "bit_buffer_size bs < n")
    case False
    with "1.prems" show ?thesis by (simp add: get_value_fill.simps)
  next
    case True
    with "1.prems" have lt: "\<not> byte_stream_size bs \<le> byte_stream_offset bs"
      and rec: "get_value_fill (refill bs) n = Inr bs1"
      by (auto simp: get_value_fill.simps [of bs] split: if_splits)
    from "1.IH" [OF True lt rec] refill_same_stream [of bs]
    show ?thesis by (rule same_stream_trans [rotated])
  qed
qed

lemma get_value_fill_with_stream:
  "agrees d bs \<Longrightarrow>
   get_value_fill (with_stream d bs) n = lift_result (with_stream d) (get_value_fill bs n)"
proof (induction bs n rule: get_value_fill.induct)
  case (1 bs n)
  show ?case
  proof (cases "bit_buffer_size bs < n \<and> byte_stream_offset bs < byte_stream_size bs")
    case False
    then show ?thesis
      by (subst (1 2) get_value_fill.simps) auto
  next
    case True
    then have a: "bit_buffer_size bs < n" and b: "\<not> byte_stream_size bs \<le> byte_stream_offset bs"
      by simp_all
    have ag: "agrees d (refill bs)"
      using "1.prems" refill_same_stream by (rule agrees_same_stream)
    have "get_value_fill (with_stream d bs) n = get_value_fill (refill (with_stream d bs)) n"
      using True by (subst get_value_fill.simps) simp
    also have "\<dots> = get_value_fill (with_stream d (refill bs)) n"
      using "1.prems" True by (simp add: refill_with_stream)
    also have "\<dots> = lift_result (with_stream d) (get_value_fill (refill bs) n)"
      by (rule "1.IH" [OF a b ag])
    also have "get_value_fill (refill bs) n = get_value_fill bs n"
      using True by (subst (2) get_value_fill.simps) simp
    finally show ?thesis .
  qed
qed

lemma get_value_same_stream:
  "deflate_bit_stream_get_value bs n = Inr (v, bs1) \<Longrightarrow> same_stream bs bs1"
  by (auto simp: deflate_bit_stream_get_value_def same_stream_def
           split: if_splits sum.splits dest!: get_value_fill_same_stream)

lemma get_value_with_stream:
  "agrees d bs \<Longrightarrow>
   deflate_bit_stream_get_value (with_stream d bs) n
   = lift_result (apsnd (with_stream d)) (deflate_bit_stream_get_value bs n)"
  by (cases "get_value_fill bs n")
     (simp_all add: deflate_bit_stream_get_value_def get_value_fill_with_stream)



lemma huffman_fill_same_stream: "same_stream bs (huffman_fill bs n)"
proof (induction bs n rule: huffman_fill.induct)
  case (1 bs n)
  show ?case
  proof (cases "bit_buffer_size bs < n \<and> byte_stream_offset bs < byte_stream_size bs")
    case False
    then show ?thesis by (subst huffman_fill.simps) auto
  next
    case True
    then have a: "bit_buffer_size bs < n" and b: "\<not> byte_stream_size bs \<le> byte_stream_offset bs"
      by simp_all
    have "huffman_fill bs n = huffman_fill (refill bs) n"
      using True by (subst huffman_fill.simps) simp
    with "1.IH" [OF a b] refill_same_stream [of bs] show ?thesis
      by (simp add: same_stream_def)
  qed
qed

lemma huffman_fill_with_stream:
  "agrees d bs \<Longrightarrow> huffman_fill (with_stream d bs) n = with_stream d (huffman_fill bs n)"
proof (induction bs n rule: huffman_fill.induct)
  case (1 bs n)
  show ?case
  proof (cases "bit_buffer_size bs < n \<and> byte_stream_offset bs < byte_stream_size bs")
    case False
    then show ?thesis by (subst (1 2) huffman_fill.simps) auto
  next
    case True
    then have a: "bit_buffer_size bs < n" and b: "\<not> byte_stream_size bs \<le> byte_stream_offset bs"
      by simp_all
    have ag: "agrees d (refill bs)"
      using "1.prems" refill_same_stream by (rule agrees_same_stream)
    have "huffman_fill (with_stream d bs) n = huffman_fill (refill (with_stream d bs)) n"
      using True by (subst huffman_fill.simps) simp
    also have "\<dots> = huffman_fill (with_stream d (refill bs)) n"
      using "1.prems" True by (simp add: refill_with_stream)
    also have "\<dots> = with_stream d (huffman_fill (refill bs) n)"
      by (rule "1.IH" [OF a b ag])
    also have "huffman_fill (refill bs) n = huffman_fill bs n"
      using True by (subst (2) huffman_fill.simps) simp
    finally show ?thesis .
  qed
qed

lemma get_huffman_encoded_value_same_stream:
  "deflate_bit_stream_get_huffman_encoded_value bs table = Inr (v, bs1) \<Longrightarrow> same_stream bs bs1"
  using huffman_fill_same_stream [of bs "maximum_number_of_bits table"]
  by (auto simp: deflate_bit_stream_get_huffman_encoded_value_def Let_def same_stream_def
           split: sum.splits)

lemma get_huffman_encoded_value_with_stream:
  "agrees d bs \<Longrightarrow>
   deflate_bit_stream_get_huffman_encoded_value (with_stream d bs) table
   = lift_result (apsnd (with_stream d)) (deflate_bit_stream_get_huffman_encoded_value bs table)"
  by (simp add: deflate_bit_stream_get_huffman_encoded_value_def Let_def
        huffman_fill_with_stream split: sum.splits)



lemma read_code_sizes_same_stream:
  "read_code_sizes bs n i a = Inr (a1, bs1) \<Longrightarrow> same_stream bs bs1"
proof (induction bs n i a rule: read_code_sizes.induct)
  case (1 bs n i a)
  show ?case
  proof (cases "i < n")
    case False
    with "1.prems" show ?thesis by (simp add: read_code_sizes.simps)
  next
    case True
    with "1.prems" obtain v bs2 where
      g: "deflate_bit_stream_get_value bs 3 = Inr (v, bs2)"
      and r: "read_code_sizes bs2 n (i + 1) (a [code_sizes_sequence ! i := ucast v]) = Inr (a1, bs1)"
      by (subst (asm) read_code_sizes.simps) (auto split: sum.splits)
    from get_value_same_stream [OF g] "1.IH" [OF True g refl r]
    show ?thesis by (rule same_stream_trans)
  qed
qed

lemma read_code_sizes_with_stream:
  "agrees d bs \<Longrightarrow>
   read_code_sizes (with_stream d bs) n i a
   = lift_result (apsnd (with_stream d)) (read_code_sizes bs n i a)"
proof (induction bs n i a rule: read_code_sizes.induct)
  case (1 bs n i a)
  show ?case
  proof (cases "i < n")
    case False
    then show ?thesis by (subst (1 2) read_code_sizes.simps) simp
  next
    case True
    show ?thesis
    proof (cases "deflate_bit_stream_get_value bs 3")
      case (Inl e)
      with True "1.prems" show ?thesis
        by (subst (1 2) read_code_sizes.simps) (simp add: get_value_with_stream)
    next
      case (Inr p)
      obtain v bs2 where p: "p = (v, bs2)" by (cases p)
      have g: "deflate_bit_stream_get_value bs 3 = Inr (v, bs2)" using Inr p by simp
      have ag: "agrees d bs2"
        using "1.prems" get_value_same_stream [OF g] by (rule agrees_same_stream)
      from "1.IH" [OF True g refl ag] True g "1.prems" show ?thesis
        by (subst (1 2) read_code_sizes.simps) (simp add: get_value_with_stream)
    qed
  qed
qed

lemma get_times_to_repeat_same_stream:
  "get_times_to_repeat bs symbol i a = Inr (c, t, bs1) \<Longrightarrow> same_stream bs bs1"
  by (auto simp: get_times_to_repeat_def split: if_splits sum.splits
           dest: get_value_same_stream)

lemma get_times_to_repeat_with_stream:
  "agrees d bs \<Longrightarrow>
   get_times_to_repeat (with_stream d bs) symbol i a
   = lift_result (apsnd (apsnd (with_stream d))) (get_times_to_repeat bs symbol i a)"
  by (simp add: get_times_to_repeat_def get_value_with_stream split: sum.splits)



lemma decode_code_sizes_same_stream:
  "decode_code_sizes bs table n i a = Inr (a1, bs1) \<Longrightarrow> same_stream bs bs1"
proof (induction bs table n i a rule: decode_code_sizes.induct)
  case (1 bs table n i a)
  show ?case
  proof (cases "i < n")
    case False
    with "1.prems" show ?thesis by (simp add: decode_code_sizes.simps)
  next
    case True
    with "1.prems" obtain symbol bs2 where
      g: "deflate_bit_stream_get_huffman_encoded_value bs table = Inr (symbol, bs2)"
      by (subst (asm) decode_code_sizes.simps) (auto split: sum.splits)
    note s2 = get_huffman_encoded_value_same_stream [OF g]
    show ?thesis
    proof (cases "symbol < 16")
      case lt: True
      with True g "1.prems" have
        r: "decode_code_sizes bs2 table n (i + 1) (a [i := ucast symbol]) = Inr (a1, bs1)"
        by (subst (asm) decode_code_sizes.simps) simp
      from s2 "1.IH" (1) [OF True g refl lt r] show ?thesis by (rule same_stream_trans)
    next
      case ge: False
      with True g "1.prems" obtain c t bs3 where
        h: "get_times_to_repeat bs2 symbol i a = Inr (c, t, bs3)"
        by (subst (asm) decode_code_sizes.simps) (auto split: sum.splits)
      with ge True g "1.prems" have le: "\<not> n < i + t"
        and r: "decode_code_sizes bs3 table n (i + t)
                  (fst (repeat_code_size a i (ucast c) t)) = Inr (a1, bs1)"
        by (subst (asm) decode_code_sizes.simps, simp split: if_splits)+
      have "same_stream bs3 bs1"
        by (rule "1.IH" (2) [OF True g refl ge h refl refl le r])
      with same_stream_trans [OF s2 get_times_to_repeat_same_stream [OF h]]
      show ?thesis by (rule same_stream_trans)
    qed
  qed
qed



lemma decode_code_sizes_with_stream:
  "agrees d bs \<Longrightarrow>
   decode_code_sizes (with_stream d bs) table n i a
   = lift_result (apsnd (with_stream d)) (decode_code_sizes bs table n i a)"
proof (induction bs table n i a rule: decode_code_sizes.induct)
  case (1 bs table n i a)
  note hv = get_huffman_encoded_value_with_stream [OF "1.prems"]
  show ?case
  proof (cases "i < n")
    case False
    then show ?thesis by (subst (1 2) decode_code_sizes.simps) simp
  next
    case True
    show ?thesis
    proof (cases "deflate_bit_stream_get_huffman_encoded_value bs table")
      case (Inl e)
      with True show ?thesis
        by (subst (1 2) decode_code_sizes.simps) (simp add: hv)
    next
      case (Inr p)
      obtain symbol bs2 where "p = (symbol, bs2)" by (cases p)
      with Inr have
        g: "deflate_bit_stream_get_huffman_encoded_value bs table = Inr (symbol, bs2)"
        by simp
      have ag2: "agrees d bs2"
        using "1.prems" get_huffman_encoded_value_same_stream [OF g]
        by (rule agrees_same_stream)
      note tr = get_times_to_repeat_with_stream [OF ag2]
      show ?thesis
      proof (cases "symbol < 16")
        case lt: True
        from "1.IH" (1) [OF True g refl lt ag2] True g lt show ?thesis
          by (subst (1 2) decode_code_sizes.simps) (simp add: hv)
      next
        case ge: False
        show ?thesis
        proof (cases "get_times_to_repeat bs2 symbol i a")
          case (Inl e)
          with True g ge show ?thesis
            by (subst (1 2) decode_code_sizes.simps) (simp add: hv tr)
        next
          case (Inr q)
          obtain c t bs3 where "q = (c, t, bs3)" by (cases q)
          with Inr have h: "get_times_to_repeat bs2 symbol i a = Inr (c, t, bs3)" by simp
          have ag3: "agrees d bs3"
            using ag2 get_times_to_repeat_same_stream [OF h] by (rule agrees_same_stream)
          show ?thesis
          proof (cases "n < i + t")
            case over: True
            with True g ge h show ?thesis
              by (subst (1 2) decode_code_sizes.simps) (simp add: hv tr)
          next
            case le: False
            from "1.IH" (2) [OF True g refl ge h refl refl le ag3] True g ge h le
            show ?thesis
              by (subst (1 2) decode_code_sizes.simps) (simp add: hv tr)
          qed
        qed
      qed
    qed
  qed
qed

lemma initialize_dynamic_huffman_tables_same_stream:
  "deflate_initialize_dynamic_huffman_tables bs = Inr (lt, dt, bs1) \<Longrightarrow> same_stream bs bs1"
  unfolding deflate_initialize_dynamic_huffman_tables_def Let_def
  by (auto split: sum.splits if_splits
           dest!: get_value_same_stream read_code_sizes_same_stream
                  decode_code_sizes_same_stream
           simp: same_stream_def)



lemma initialize_dynamic_huffman_tables_with_stream:
  assumes ag: "agrees d bs"
  shows "deflate_initialize_dynamic_huffman_tables (with_stream d bs)
   = lift_result (apsnd (apsnd (with_stream d))) (deflate_initialize_dynamic_huffman_tables bs)"
proof (cases "deflate_bit_stream_get_value bs 14")
  case (Inl e)
  then show ?thesis
    by (simp add: deflate_initialize_dynamic_huffman_tables_def get_value_with_stream [OF ag])
next
  case (Inr p)
  obtain v bs1 where "p = (v, bs1)" by (cases p)
  with Inr have g: "deflate_bit_stream_get_value bs 14 = Inr (v, bs1)" by simp
  have ag1: "agrees d bs1"
    using ag get_value_same_stream [OF g] by (rule agrees_same_stream)
  define m where "m = unat (drop_bit 5 (drop_bit 5 v) + 4)"
  show ?thesis
  proof (cases "read_code_sizes bs1 m 0 (replicate 316 0)")
    case (Inl e)
    with g show ?thesis
      by (simp add: deflate_initialize_dynamic_huffman_tables_def Let_def m_def
            get_value_with_stream [OF ag] read_code_sizes_with_stream [OF ag1])
  next
    case (Inr q)
    obtain a bs2 where "q = (a, bs2)" by (cases q)
    with Inr have r: "read_code_sizes bs1 m 0 (replicate 316 0) = Inr (a, bs2)" by simp
    have ag2: "agrees d bs2"
      using ag1 read_code_sizes_same_stream [OF r] by (rule agrees_same_stream)
    from g r show ?thesis
      by (simp add: deflate_initialize_dynamic_huffman_tables_def Let_def m_def
            get_value_with_stream [OF ag] read_code_sizes_with_stream [OF ag1]
            decode_code_sizes_with_stream [OF ag2] split: sum.splits)
  qed
qed



lemma decode_match_same_stream:
  assumes "decode_match bs distances_table code_value out cap off = Inr (bs', out', off')"
  shows "same_stream bs bs'"
proof -
  from assms obtain n1 e1 bs1 c2 bs2 n2 e2 where
    1: "deflate_bit_stream_get_value bs n1 = Inr (e1, bs1)" and
    2: "deflate_bit_stream_get_huffman_encoded_value bs1 distances_table = Inr (c2, bs2)" and
    3: "deflate_bit_stream_get_value bs2 n2 = Inr (e2, bs')"
    unfolding decode_match_def Let_def
    by (auto split: sum.splits if_splits)
  from get_value_same_stream [OF 1] get_huffman_encoded_value_same_stream [OF 2]
    get_value_same_stream [OF 3]
  show ?thesis by (simp add: same_stream_def)
qed

lemma decode_match_with_stream:
  assumes ag: "agrees d bs"
  shows "decode_match (with_stream d bs) distances_table code_value out cap off
   = lift_result (apfst (with_stream d)) (decode_match bs distances_table code_value out cap off)"
proof -
  define n1 where
    "n1 = unat (ucast (literal_codes_number_of_extra_bits ! unat (code_value - 257)) :: 8 word)"
  show ?thesis
  proof (cases "deflate_bit_stream_get_value bs n1")
    case (Inl e)
    then show ?thesis
      by (simp add: decode_match_def Let_def n1_def get_value_with_stream [OF ag])
  next
    case (Inr p)
    obtain e1 bs1 where "p = (e1, bs1)" by (cases p)
    with Inr have 1: "deflate_bit_stream_get_value bs n1 = Inr (e1, bs1)" by simp
    have ag1: "agrees d bs1"
      using ag get_value_same_stream [OF 1] by (rule agrees_same_stream)
    show ?thesis
    proof (cases "deflate_bit_stream_get_huffman_encoded_value bs1 distances_table")
      case (Inl e)
      with 1 show ?thesis
        by (simp add: decode_match_def Let_def n1_def get_value_with_stream [OF ag]
              get_huffman_encoded_value_with_stream [OF ag1])
    next
      case (Inr q)
      obtain c2 bs2 where "q = (c2, bs2)" by (cases q)
      with Inr have
        2: "deflate_bit_stream_get_huffman_encoded_value bs1 distances_table = Inr (c2, bs2)"
        by simp
      have ag2: "agrees d bs2"
        using ag1 get_huffman_encoded_value_same_stream [OF 2] by (rule agrees_same_stream)
      from 1 2 show ?thesis
        by (simp add: decode_match_def Let_def n1_def get_value_with_stream [OF ag]
              get_huffman_encoded_value_with_stream [OF ag1]
              get_value_with_stream [OF ag2] split: sum.splits)
    qed
  qed
qed

lemma decode_huffman_loop_same_stream:
  "decode_huffman_loop bs lt dt out cap off = Inr (bs', out', off') \<Longrightarrow> same_stream bs bs'"
proof (induction bs lt dt out cap off rule: decode_huffman_loop.induct)
  case (1 bs lt dt out cap off)
  from "1.prems" obtain c bs1 where
    g: "deflate_bit_stream_get_huffman_encoded_value bs lt = Inr (c, bs1)"
    by (subst (asm) decode_huffman_loop.simps) (auto split: sum.splits)
  note s1 = get_huffman_encoded_value_same_stream [OF g]
  consider (lit) "c < 256" | (mat) "\<not> c < 256" "c > 256 \<and> c < 286"
    | (other) "\<not> c < 256" "\<not> (c > 256 \<and> c < 286)" by blast
  then show ?case
  proof cases
    case lit
    with g "1.prems" have cap: "\<not> cap \<le> off"
      and r: "decode_huffman_loop bs1 lt dt (out [off := ucast c]) cap (off + 1)
                = Inr (bs', out', off')"
      by (subst (asm) decode_huffman_loop.simps, simp split: if_splits)+
    from s1 "1.IH" (1) [OF g refl lit cap r] show ?thesis by (rule same_stream_trans)
  next
    case mat
    with g "1.prems" obtain bs2 out2 off2 where
      m: "decode_match bs1 dt c out cap off = Inr (bs2, out2, off2)"
      by (subst (asm) decode_huffman_loop.simps) (auto split: sum.splits)
    with mat g "1.prems" have
      r: "decode_huffman_loop bs2 lt dt out2 cap off2 = Inr (bs', out', off')"
      by (subst (asm) decode_huffman_loop.simps) simp
    have "same_stream bs2 bs'"
      by (rule "1.IH" (2) [OF g refl mat m refl refl r])
    with same_stream_trans [OF s1 decode_match_same_stream [OF m]]
    show ?thesis by (rule same_stream_trans)
  next
    case other
    with g "1.prems" have "bs' = bs1"
      by (subst (asm) decode_huffman_loop.simps) (simp split: if_splits)
    with s1 show ?thesis by simp
  qed
qed



lemma decode_huffman_loop_with_stream:
  "agrees d bs \<Longrightarrow>
   decode_huffman_loop (with_stream d bs) lt dt out cap off
   = lift_result (apfst (with_stream d)) (decode_huffman_loop bs lt dt out cap off)"
proof (induction bs lt dt out cap off rule: decode_huffman_loop.induct)
  case (1 bs lt dt out cap off)
  note hv = get_huffman_encoded_value_with_stream [OF "1.prems"]
  show ?case
  proof (cases "deflate_bit_stream_get_huffman_encoded_value bs lt")
    case (Inl e)
    then show ?thesis
      by (subst (1 2) decode_huffman_loop.simps) (simp add: hv)
  next
    case (Inr p)
    obtain c bs1 where "p = (c, bs1)" by (cases p)
    with Inr have g: "deflate_bit_stream_get_huffman_encoded_value bs lt = Inr (c, bs1)"
      by simp
    have ag1: "agrees d bs1"
      using "1.prems" get_huffman_encoded_value_same_stream [OF g]
      by (rule agrees_same_stream)
    note dm = decode_match_with_stream [OF ag1]
    consider (lit) "c < 256" "\<not> cap \<le> off" | (full) "c < 256" "cap \<le> off"
      | (mat) "\<not> c < 256" "c > 256 \<and> c < 286"
      | (stop) "c = 256" | (bad) "\<not> c < 286" "c \<noteq> 256"
      by (cases "c < 286"; cases "c < 256"; cases "c = 256") auto
    then show ?thesis
    proof cases
      case lit
      from "1.IH" (1) [OF g refl lit ag1] g lit show ?thesis
        by (subst (1 2) decode_huffman_loop.simps) (simp add: hv)
    next
      case full
      with g show ?thesis
        by (subst (1 2) decode_huffman_loop.simps) (simp add: hv)
    next
      case mat
      show ?thesis
      proof (cases "decode_match bs1 dt c out cap off")
        case (Inl e)
        with g mat show ?thesis
          by (subst (1 2) decode_huffman_loop.simps) (simp add: hv dm)
      next
        case (Inr q)
        obtain bs2 out2 off2 where "q = (bs2, out2, off2)" by (cases q)
        with Inr have m: "decode_match bs1 dt c out cap off = Inr (bs2, out2, off2)"
          by simp
        have ag2: "agrees d bs2"
          using ag1 decode_match_same_stream [OF m] by (rule agrees_same_stream)
        from "1.IH" (2) [OF g refl mat m refl refl ag2] g mat m show ?thesis
          by (subst (1 2) decode_huffman_loop.simps) (simp add: hv dm)
      qed
    next
      case stop
      with g show ?thesis
        by (subst (1 2) decode_huffman_loop.simps) (simp add: hv)
    next
      case bad
      then have "\<not> c < 256" by (simp add: word_less_nat_alt)
      with bad g show ?thesis
        by (subst (1 2) decode_huffman_loop.simps) (simp add: hv)
    qed
  qed
qed


lemma decode_huffman_same_stream:
  "deflate_decode_huffman bs lt dt out cap off = Inr (bs', out', off') \<Longrightarrow> same_stream bs bs'"
  by (auto simp: deflate_decode_huffman_def split: if_splits
           dest: decode_huffman_loop_same_stream)

lemma decode_huffman_with_stream:
  "agrees d bs \<Longrightarrow>
   deflate_decode_huffman (with_stream d bs) lt dt out cap off
   = lift_result (apfst (with_stream d)) (deflate_decode_huffman bs lt dt out cap off)"
  by (simp add: deflate_decode_huffman_def decode_huffman_loop_with_stream)

lemma agrees_take_drop:
  assumes "agrees d bs" "j + n \<le> byte_stream_size bs"
  shows "take n (drop j d) = take n (drop j (byte_stream bs))"
proof -
  have "take (n + j) d = take (n + j) (take (byte_stream_size bs) d)"
    using assms(2) by (simp add: min_def add.commute)
  also have "\<dots> = take (n + j) (take (byte_stream_size bs) (byte_stream bs))"
    using assms(1) by (simp add: agrees_def)
  also have "\<dots> = take (n + j) (byte_stream bs)"
    using assms(2) by (simp add: min_def add.commute)
  finally have "drop j (take (n + j) d) = drop j (take (n + j) (byte_stream bs))"
    by simp
  then show ?thesis by (simp only: take_drop)
qed



lemma decode_uncompressed_block_same_stream:
  assumes "decode_uncompressed_block bs out cap off = Inr (bs', out', off')"
  shows "same_stream bs bs'"
proof -
  from assms obtain v1 bs1 v2 bs2 where
    1: "(if bit_buffer_size bs AND 0x07 > 0
         then deflate_bit_stream_get_value bs (bit_buffer_size bs AND 0x07)
         else Inr (0, bs)) = Inr (v1, bs1)" and
    2: "deflate_bit_stream_get_value bs1 32 = Inr (v2, bs2)" and
    3: "same_stream bs2 bs'"
    unfolding decode_uncompressed_block_def Let_def
    by (auto split: sum.splits if_splits simp: same_stream_def)
  from 1 have "same_stream bs bs1"
    by (auto split: if_splits dest: get_value_same_stream)
  with get_value_same_stream [OF 2] 3 show ?thesis
    by (simp add: same_stream_def)
qed

lemma with_stream_offset_update:
  "with_stream d (bs\<lparr> byte_stream_offset := k, bit_buffer := b, bit_buffer_size := n \<rparr>)
   = (with_stream d bs)\<lparr> byte_stream_offset := k, bit_buffer := b, bit_buffer_size := n \<rparr>"
  by (simp add: with_stream_def)

lemma decode_uncompressed_block_with_stream:
  assumes ag: "agrees d bs"
  shows "decode_uncompressed_block (with_stream d bs) out cap off
   = lift_result (apfst (with_stream d)) (decode_uncompressed_block bs out cap off)"
proof -
  define skip where "skip = (if bit_buffer_size bs AND 0x07 > 0
         then deflate_bit_stream_get_value bs (bit_buffer_size bs AND 0x07)
         else Inr (0, bs))"
  have skip': "(if bit_buffer_size bs AND 0x07 > 0
         then deflate_bit_stream_get_value (with_stream d bs) (bit_buffer_size bs AND 0x07)
         else Inr (0, with_stream d bs)) = lift_result (apsnd (with_stream d)) skip"
    by (simp add: skip_def get_value_with_stream [OF ag])
  show ?thesis
  proof (cases skip)
    case (Inl e)
    then show ?thesis
      unfolding decode_uncompressed_block_def Let_def with_stream_fields skip'
      unfolding skip_def [symmetric] by simp
  next
    case (Inr p)
    obtain v1 bs1 where "p = (v1, bs1)" by (cases p)
    with Inr have 1: "skip = Inr (v1, bs1)" by simp
    then have "same_stream bs bs1"
      by (auto simp: skip_def split: if_splits dest: get_value_same_stream)
    with ag have ag1: "agrees d bs1" by (rule agrees_same_stream)
    show ?thesis
    proof (cases "deflate_bit_stream_get_value bs1 32")
      case (Inl e)
      with 1 show ?thesis
        unfolding decode_uncompressed_block_def Let_def with_stream_fields skip'
        unfolding skip_def [symmetric] by (simp add: get_value_with_stream [OF ag1])
    next
      case (Inr q)
      obtain v2 bs2 where "q = (v2, bs2)" by (cases q)
      with Inr have 2: "deflate_bit_stream_get_value bs1 32 = Inr (v2, bs2)" by simp
      have ag2: "agrees d bs2"
        using ag1 get_value_same_stream [OF 2] by (rule agrees_same_stream)
      have copy: "memory_copy out off d (byte_stream_offset bs2) k
                  = memory_copy out off (byte_stream bs2) (byte_stream_offset bs2) k"
        if "k \<le> byte_stream_size bs2 - byte_stream_offset bs2" "0 < k" for k
      proof -
        from that have "byte_stream_offset bs2 + k \<le> byte_stream_size bs2" by simp
        from agrees_take_drop [OF ag2 this] show ?thesis by (simp add: memory_copy_def)
      qed
      from 1 2 show ?thesis
        unfolding decode_uncompressed_block_def Let_def with_stream_fields skip'
        unfolding skip_def [symmetric]
        by (simp add: get_value_with_stream [OF ag1] with_stream_offset_update copy
              unat_gt_0 not_less)
    qed
  qed
qed



lemma decode_block_same_stream:
  "decode_block t bs flt fdt out cap off = Inr (bs', out', off') \<Longrightarrow> same_stream bs bs'"
  unfolding decode_block_def
  by (auto split: if_splits sum.splits
           dest: decode_uncompressed_block_same_stream decode_huffman_same_stream
                 initialize_dynamic_huffman_tables_same_stream same_stream_trans)

lemma decode_block_with_stream:
  assumes ag: "agrees d bs"
  shows "decode_block t (with_stream d bs) flt fdt out cap off
   = lift_result (apfst (with_stream d)) (decode_block t bs flt fdt out cap off)"
proof (cases "deflate_initialize_dynamic_huffman_tables bs")
  case (Inl e)
  then show ?thesis
    by (simp add: decode_block_def decode_uncompressed_block_with_stream [OF ag]
          decode_huffman_with_stream [OF ag]
          initialize_dynamic_huffman_tables_with_stream [OF ag])
next
  case (Inr p)
  obtain lt dt bs1 where "p = (lt, dt, bs1)" by (cases p)
  with Inr have 1: "deflate_initialize_dynamic_huffman_tables bs = Inr (lt, dt, bs1)" by simp
  have ag1: "agrees d bs1"
    using ag initialize_dynamic_huffman_tables_same_stream [OF 1] by (rule agrees_same_stream)
  from 1 show ?thesis
    by (simp add: decode_block_def decode_uncompressed_block_with_stream [OF ag]
          decode_huffman_with_stream [OF ag] decode_huffman_with_stream [OF ag1]
          initialize_dynamic_huffman_tables_with_stream [OF ag])
qed

lemma decode_blocks_same_stream:
  "decode_blocks bs flt fdt out cap off = Inr (bs', out', off') \<Longrightarrow> same_stream bs bs'"
proof (induction bs flt fdt out cap off rule: decode_blocks.induct)
  case (1 bs flt fdt out cap off)
  show ?case
  proof (cases "byte_stream_offset bs < byte_stream_size bs")
    case False
    with "1.prems" show ?thesis by (simp add: decode_blocks.simps)
  next
    case True
    with "1.prems" obtain v bs1 where
      g: "deflate_bit_stream_get_value bs 3 = Inr (v, bs1)"
      by (subst (asm) decode_blocks.simps) (auto split: sum.splits)
    with True "1.prems" obtain bs2 out2 off2 where
      b: "decode_block (ucast (drop_bit 1 v)) bs1 flt fdt out cap off = Inr (bs2, out2, off2)"
      by (subst (asm) decode_blocks.simps) (auto split: sum.splits)
    note s2 = same_stream_trans [OF get_value_same_stream [OF g] decode_block_same_stream [OF b]]
    show ?thesis
    proof (cases "(ucast (v AND 0x00000001) :: 8 word) \<noteq> 0")
      case last: True
      with True g b "1.prems" have "bs' = bs2"
        by (subst (asm) decode_blocks.simps) simp
      with s2 show ?thesis by simp
    next
      case more: False
      with True g b "1.prems" have
        r: "decode_blocks bs2 flt fdt out2 cap off2 = Inr (bs', out', off')"
        by (subst (asm) decode_blocks.simps) simp
      from s2 "1.IH" [OF True g refl b refl refl more r] show ?thesis
        by (rule same_stream_trans)
    qed
  qed
qed

lemma decode_blocks_with_stream:
  "agrees d bs \<Longrightarrow>
   decode_blocks (with_stream d bs) flt fdt out cap off
   = lift_result (apfst (with_stream d)) (decode_blocks bs flt fdt out cap off)"
proof (induction bs flt fdt out cap off rule: decode_blocks.induct)
  case (1 bs flt fdt out cap off)
  note gv = get_value_with_stream [OF "1.prems"]
  show ?case
  proof (cases "byte_stream_offset bs < byte_stream_size bs")
    case False
    then show ?thesis by (subst (1 2) decode_blocks.simps) simp
  next
    case True
    show ?thesis
    proof (cases "deflate_bit_stream_get_value bs 3")
      case (Inl e)
      with True show ?thesis by (subst (1 2) decode_blocks.simps) (simp add: gv)
    next
      case (Inr p)
      obtain v bs1 where "p = (v, bs1)" by (cases p)
      with Inr have g: "deflate_bit_stream_get_value bs 3 = Inr (v, bs1)" by simp
      have ag1: "agrees d bs1"
        using "1.prems" get_value_same_stream [OF g] by (rule agrees_same_stream)
      note db = decode_block_with_stream [OF ag1]
      show ?thesis
      proof (cases "decode_block (ucast (drop_bit 1 v)) bs1 flt fdt out cap off")
        case (Inl e)
        with True g show ?thesis by (subst (1 2) decode_blocks.simps) (simp add: gv db)
      next
        case (Inr q)
        obtain bs2 out2 off2 where "q = (bs2, out2, off2)" by (cases q)
        with Inr have
          b: "decode_block (ucast (drop_bit 1 v)) bs1 flt fdt out cap off
              = Inr (bs2, out2, off2)" by simp
        have ag2: "agrees d bs2"
          using ag1 decode_block_same_stream [OF b] by (rule agrees_same_stream)
        show ?thesis
        proof (cases "(ucast (v AND 0x00000001) :: 8 word) \<noteq> 0")
          case last: True
          with True g b show ?thesis
            by (subst (1 2) decode_blocks.simps) (simp add: gv db)
        next
          case more: False
          from "1.IH" [OF True g refl b refl refl more ag2] True g b more show ?thesis
            by (subst (1 2) decode_blocks.simps) (simp add: gv db)
        qed
      qed
    qed
  qed
qed



lemma unread_bytes_stream:
  "same_stream bs (unread_bytes bs)
   \<and> byte_stream_offset (unread_bytes bs) \<le> byte_stream_offset bs"
proof (induction bs rule: unread_bytes.induct)
  case (1 bs)
  show ?case
  proof (cases "bit_buffer_size bs \<ge> 8")
    case False
    then show ?thesis by (subst (1 2) unread_bytes.simps) simp
  next
    case True
    from "1.IH" [OF True] True show ?thesis
      by (subst (1 2) unread_bytes.simps) (auto simp: same_stream_def)
  qed
qed

lemma unread_bytes_with_stream:
  "unread_bytes (with_stream d bs) = with_stream d (unread_bytes bs)"
proof (induction bs rule: unread_bytes.induct)
  case (1 bs)
  show ?case
  proof (cases "bit_buffer_size bs \<ge> 8")
    case False
    then show ?thesis by (subst (1 2) unread_bytes.simps) simp
  next
    case True
    have e: "with_stream d (bs \<lparr> byte_stream_offset := k, bit_buffer_size := m \<rparr>)
          = (with_stream d bs) \<lparr> byte_stream_offset := k, bit_buffer_size := m \<rparr>" for k m
      by (simp add: with_stream_def)
    from "1.IH" [OF True] True show ?thesis
      by (subst (1 2) unread_bytes.simps) (simp add: e)
  qed
qed

lemma verify_checksum_with_stream:
  assumes ag: "agrees d bs"
  shows "verify_checksum (with_stream d bs) out off = verify_checksum bs out off"
proof (cases "byte_stream_size bs - byte_stream_offset bs \<ge> 4")
  case False
  then show ?thesis by (simp add: verify_checksum_def)
next
  case True
  define bs1 where "bs1 = unread_bytes bs"
  from unread_bytes_stream [of bs] have s: "same_stream bs bs1"
    and le: "byte_stream_offset bs1 \<le> byte_stream_offset bs"
    by (simp_all add: bs1_def)
  from ag s have ag1: "agrees d bs1" by (rule agrees_same_stream)
  from s True le have "byte_stream_offset bs1 + 3 < byte_stream_size bs1"
    by (simp add: same_stream_def)
  then have "byte_stream_copy_to_uint32_big_endian d (byte_stream_offset bs1)
        = byte_stream_copy_to_uint32_big_endian (byte_stream bs1) (byte_stream_offset bs1)"
    by (simp add: byte_stream_copy_to_uint32_big_endian_def agrees_nth [OF ag1])
  then show ?thesis
    by (simp add: verify_checksum_def Let_def unread_bytes_with_stream bs1_def
          split: sum.splits)
qed

definition header_length :: "8 word list \<Rightarrow> nat" where
  "header_length compressed_data = (if compressed_data ! 1 AND 0x20 \<noteq> 0 then 6 else 2)"

lemma read_zlib_header_stream:
  assumes "read_zlib_header data n = Inr (bs, ident)"
  shows "byte_stream bs = data \<and> byte_stream_offset bs = header_length data
         \<and> byte_stream_size bs = n - header_length data
         \<and> bit_buffer_size bs = 0
         \<and> header_length data < n - header_length data"
  using assms unfolding read_zlib_header_def Let_def header_length_def
  by (auto split: if_splits)



lemma read_zlib_header_with_stream:
  assumes "take (max 2 (n - header_length data)) data'
           = take (max 2 (n - header_length data)) data"
  shows "read_zlib_header data' n
         = lift_result (apfst (with_stream data')) (read_zlib_header data n)"
proof -
  have eq: "data' ! i = data ! i" if "i < max 2 (n - header_length data)" for i
    using assms that by (metis nth_take)
  have 0: "data' ! 0 = data ! 0" and 1: "data' ! Suc 0 = data ! Suc 0"
    by (simp_all add: eq)
  have ident: "byte_stream_copy_to_uint32_big_endian data' 2
               = byte_stream_copy_to_uint32_big_endian data 2"
    if "6 < n - 6" "data ! 1 AND 0x20 \<noteq> 0"
    using that by (simp add: byte_stream_copy_to_uint32_big_endian_def eq header_length_def)
  show ?thesis
  proof (cases "data ! 1 AND 0x20 \<noteq> 0 \<and> 6 < n - 6")
    case True
    with ident have "byte_stream_copy_to_uint32_big_endian data' 2
               = byte_stream_copy_to_uint32_big_endian data 2" by simp
    then show ?thesis
      by (simp add: read_zlib_header_def Let_def 0 1 with_stream_def)
  next
    case False
    then show ?thesis
      by (auto simp: read_zlib_header_def Let_def 0 1 with_stream_def)
  qed
qed

lemma deflate_decompress_with_stream:
  assumes "take (max 2 (n - header_length data)) data'
           = take (max 2 (n - header_length data)) data"
  shows "deflate_decompress data' n out cap = deflate_decompress data n out cap"
proof (cases "read_zlib_header data n")
  case (Inl e)
  then show ?thesis
    by (simp add: deflate_decompress_def read_zlib_header_with_stream [OF assms])
next
  case (Inr p)
  obtain bs ident where "p = (bs, ident)" by (cases p)
  with Inr have h: "read_zlib_header data n = Inr (bs, ident)" by simp
  note hs = read_zlib_header_stream [OF h]
  from hs have "max 2 (n - header_length data) = byte_stream_size bs"
    by (simp add: header_length_def split: if_splits)
  with assms hs have ag: "agrees data' bs" by (simp add: agrees_def)
  show ?thesis
  proof (cases "decode_blocks bs fixed_literals_table fixed_distances_table out cap 0")
    case (Inl e)
    with h show ?thesis
      by (simp add: deflate_decompress_def read_zlib_header_with_stream [OF assms]
            fixed_tables_value decode_blocks_with_stream [OF ag])
  next
    case (Inr q)
    obtain bs' out' off' where "q = (bs', out', off')" by (cases q)
    with Inr have
      b: "decode_blocks bs fixed_literals_table fixed_distances_table out cap 0
          = Inr (bs', out', off')" by simp
    have ag': "agrees data' bs'"
      using ag decode_blocks_same_stream [OF b] by (rule agrees_same_stream)
    from h b show ?thesis
      by (simp add: deflate_decompress_def read_zlib_header_with_stream [OF assms]
            fixed_tables_value decode_blocks_with_stream [OF ag]
            verify_checksum_with_stream [OF ag'])
  qed
qed

lemma checksum_skipped:
  assumes h: "read_zlib_header data n = Inr (bs, ident)"
    and b: "decode_blocks bs fixed_literals_table fixed_distances_table out cap 0
            = Inr (bs', out', off')"
    and few: "n - header_length data - byte_stream_offset bs' < 4"
    and n: "n \<le> SSIZE_MAX" and cap: "cap \<le> SSIZE_MAX"
  shows "byte_stream_size bs' = n - header_length data
         \<and> deflate_decompress data n out cap = Inr (out', off')"
proof -
  note hs = read_zlib_header_stream [OF h]
  from decode_blocks_same_stream [OF b] hs
  have size: "byte_stream_size bs' = n - header_length data"
    by (simp add: same_stream_def)
  with few have "verify_checksum bs' out' off' = Inr ()"
    by (simp add: verify_checksum_def)
  moreover from hs have "\<not> n < 2" by (auto simp: header_length_def split: if_splits)
  ultimately show ?thesis
    using h b n cap size by (simp add: deflate_decompress_def fixed_tables_value)
qed



text \<open>
  Claim C4.  \<open>header_length\<close> is the number of header bytes the decoder consumes: 2, or 6
  when bit 5 of the second byte announces a preset dictionary.

  \<^item> When the header is accepted, the bit stream handed to the block loop starts at
    offset \<open>header_length\<close> of the input and has the size \<open>n - header_length\<close>: the header
    length is taken off the size although the offset still counts from the start of the
    buffer.
  \<^item> The result of \<open>deflate_decompress\<close> does not depend on the bytes of the input from
    that size on, the last \<open>header_length\<close> bytes of the buffer: they are never read.
    (The first two bytes are always read as the header, hence the \<open>max 2\<close>.)
  \<^item> When fewer than four bytes lie between the offset reached by the block loop and that
    size, \<open>deflate_decompress\<close> succeeds with the decoded output and no checksum is
    compared.
\<close>

theorem header_length_subtracted_from_stream_size:
  "(\<forall>bs ident. read_zlib_header data n = Inr (bs, ident) \<longrightarrow>
       byte_stream bs = data \<and> byte_stream_offset bs = header_length data
       \<and> byte_stream_size bs = n - header_length data)
   \<and> (\<forall>data'. take (max 2 (n - header_length data)) data'
                = take (max 2 (n - header_length data)) data \<longrightarrow>
         deflate_decompress data' n out cap = deflate_decompress data n out cap)
   \<and> (\<forall>bs ident flt fdt bs' out' off'.
         n \<le> SSIZE_MAX \<and> cap \<le> SSIZE_MAX
         \<and> read_zlib_header data n = Inr (bs, ident)
         \<and> deflate_initialize_fixed_huffman_tables = Inr (flt, fdt)
         \<and> decode_blocks bs flt fdt out cap 0 = Inr (bs', out', off')
         \<and> n - header_length data - byte_stream_offset bs' < 4 \<longrightarrow>
         byte_stream_size bs' = n - header_length data
         \<and> deflate_decompress data n out cap = Inr (out', off'))"
proof (intro conjI allI impI)
  fix bs ident
  assume h: "read_zlib_header data n = Inr (bs, ident)"
  from read_zlib_header_stream [OF h]
  show "byte_stream bs = data" and "byte_stream_offset bs = header_length data"
    and "byte_stream_size bs = n - header_length data"
    by simp_all
next
  fix data'
  assume "take (max 2 (n - header_length data)) data'
          = take (max 2 (n - header_length data)) data"
  then show "deflate_decompress data' n out cap = deflate_decompress data n out cap"
    by (rule deflate_decompress_with_stream)
next
  fix bs ident flt fdt bs' out' off'
  assume a: "n \<le> SSIZE_MAX \<and> cap \<le> SSIZE_MAX
         \<and> read_zlib_header data n = Inr (bs, ident)
         \<and> deflate_initialize_fixed_huffman_tables = Inr (flt, fdt)
         \<and> decode_blocks bs flt fdt out cap 0 = Inr (bs', out', off')
         \<and> n - header_length data - byte_stream_offset bs' < 4"
  then have t: "flt = fixed_literals_table" "fdt = fixed_distances_table"
    by (simp_all add: fixed_tables_value)
  from a have
    b: "decode_blocks bs fixed_literals_table fixed_distances_table out cap 0
        = Inr (bs', out', off')"
    unfolding t by simp
  from a have h: "read_zlib_header data n = Inr (bs, ident)"
    and few: "n - header_length data - byte_stream_offset bs' < 4"
    and n: "n \<le> SSIZE_MAX" and cap: "cap \<le> SSIZE_MAX" by simp_all
  from checksum_skipped [OF h b few n cap]
  show "byte_stream_size bs' = n - header_length data"
    and "deflate_decompress data n out cap = Inr (out', off')"
    by simp_all
qed

text \<open>
  The stream of the byte \<open>A\<close> is 9 bytes long and its header 2: the bit stream has offset
  2 and size 7.  Overwriting the last two bytes does not change the result; the block
  loop stops at offset 6, one byte before the size, and the call succeeds.
\<close>

theorem header_length_subtracted_from_stream_size_witness:
  "header_length literal_A_stream = 2
   \<and> (\<exists>bs ident. read_zlib_header literal_A_stream 9 = Inr (bs, ident)
         \<and> byte_stream_offset bs = 2 \<and> byte_stream_size bs = 7)
   \<and> deflate_decompress (take 7 literal_A_stream @ [0xFF, 0xFF]) 9 [0, 0] 2
       = deflate_decompress literal_A_stream 9 [0, 0] 2
   \<and> deflate_decompress literal_A_stream 9 [0, 0] 2 = Inr ([0x41, 0], 1)"
proof -
  note t = header_length_subtracted_from_stream_size [of literal_A_stream 9 "[0, 0]" 2]
  have hl: "header_length literal_A_stream = 2"
    by (simp add: header_length_def literal_A_stream_def)
  from t literal_A_header have
    1: "\<exists>bs ident. read_zlib_header literal_A_stream 9 = Inr (bs, ident)
         \<and> byte_stream_offset bs = 2 \<and> byte_stream_size bs = 7"
    by (simp add: hl)
  have tk: "take (max 2 (9 - header_length literal_A_stream))
              (take 7 literal_A_stream @ [0xFF, 0xFF])
            = take (max 2 (9 - header_length literal_A_stream)) literal_A_stream"
    unfolding hl by (simp add: literal_A_stream_def)
  from t have "take (max 2 (9 - header_length literal_A_stream)) data'
                = take (max 2 (9 - header_length literal_A_stream)) literal_A_stream
         \<Longrightarrow> deflate_decompress data' 9 [0, 0] 2
             = deflate_decompress literal_A_stream 9 [0, 0] 2" for data'
    by blast
  from this [OF tk] have
    2: "deflate_decompress (take 7 literal_A_stream @ [0xFF, 0xFF]) 9 [0, 0] 2
        = deflate_decompress literal_A_stream 9 [0, 0] 2" .
  from t have "9 \<le> SSIZE_MAX \<Longrightarrow> 2 \<le> SSIZE_MAX
         \<Longrightarrow> read_zlib_header literal_A_stream 9 = Inr (bs, ident)
         \<Longrightarrow> deflate_initialize_fixed_huffman_tables = Inr (flt, fdt)
         \<Longrightarrow> decode_blocks bs flt fdt [0, 0] 2 0 = Inr (bs', out', off')
         \<Longrightarrow> 9 - header_length literal_A_stream - byte_stream_offset bs' < 4
         \<Longrightarrow> deflate_decompress literal_A_stream 9 [0, 0] 2 = Inr (out', off')"
    for bs ident flt fdt bs' out' off'
    by blast
  from this [OF _ _ literal_A_header fixed_tables_value literal_A_blocks] have
    3: "deflate_decompress literal_A_stream 9 [0, 0] 2 = Inr ([0x41, 0], 1)"
    by (simp add: SSIZE_MAX_def hl)
  from hl 1 2 3 show ?thesis by simp
qed


section \<open>A preset dictionary is never asked for\<close>


lemma get_value_fill_error: "get_value_fill bs n \<noteq> Inl PresetDictionaryRequired"
proof (induction bs n rule: get_value_fill.induct)
  case (1 bs n)
  then show ?case by (subst get_value_fill.simps) auto
qed

lemma get_value_error: "deflate_bit_stream_get_value bs n \<noteq> Inl PresetDictionaryRequired"
  using get_value_fill_error [of bs n]
  by (auto simp: deflate_bit_stream_get_value_def split: sum.splits)

lemma count_code_sizes_error: "count_code_sizes a n s t \<noteq> Inl PresetDictionaryRequired"
proof (induction a n s t rule: count_code_sizes.induct)
  case (1 a n s t)
  then show ?case by (subst count_code_sizes.simps) (auto simp: Let_def)
qed

lemma check_left_value_error: "check_left_value t i l \<noteq> Inl PresetDictionaryRequired"
proof (induction t i l rule: check_left_value.induct)
  case (1 t i l)
  then show ?case by (subst check_left_value.simps) (auto simp: Let_def)
qed

lemma fill_codes_array_error: "fill_codes_array a n s l t \<noteq> Inl PresetDictionaryRequired"
proof (induction a n s l t rule: fill_codes_array.induct)
  case (1 a n s l t)
  then show ?case by (subst fill_codes_array.simps) (auto simp: Let_def)
qed

lemma construct_error: "deflate_huffman_table_construct a n \<noteq> Inl PresetDictionaryRequired"
  by (auto simp: deflate_huffman_table_construct_def Let_def count_code_sizes_error
        check_left_value_error fill_codes_array_error split: sum.splits)

lemma construct_table_error: "construct_table a n \<noteq> Inl PresetDictionaryRequired"
  by (auto simp: construct_table_def construct_error split: sum.splits option.splits)

lemma huffman_search_error:
  "huffman_search t n i b c f k \<noteq> Inl PresetDictionaryRequired"
proof (induction t n i b c f k rule: huffman_search.induct)
  case (1 t n i b c f k)
  then show ?case by (subst huffman_search.simps) (auto simp: Let_def)
qed

lemma get_huffman_encoded_value_error:
  "deflate_bit_stream_get_huffman_encoded_value bs t \<noteq> Inl PresetDictionaryRequired"
  by (auto simp: deflate_bit_stream_get_huffman_encoded_value_def Let_def huffman_search_error
        split: sum.splits)



lemma read_code_sizes_error: "read_code_sizes bs n i a \<noteq> Inl PresetDictionaryRequired"
proof (induction bs n i a rule: read_code_sizes.induct)
  case (1 bs n i a)
  then show ?case
    by (subst read_code_sizes.simps) (auto simp: get_value_error split: sum.splits)
qed

lemma get_times_to_repeat_error:
  "get_times_to_repeat bs symbol i a \<noteq> Inl PresetDictionaryRequired"
  by (auto simp: get_times_to_repeat_def get_value_error split: sum.splits)

lemma decode_code_sizes_error:
  "decode_code_sizes bs t n i a \<noteq> Inl PresetDictionaryRequired"
proof (induction bs t n i a rule: decode_code_sizes.induct)
  case (1 bs t n i a)
  then show ?case
    by (subst decode_code_sizes.simps)
       (auto simp: get_huffman_encoded_value_error get_times_to_repeat_error
             split: sum.splits)
qed

lemma initialize_dynamic_huffman_tables_error:
  "deflate_initialize_dynamic_huffman_tables bs \<noteq> Inl PresetDictionaryRequired"
  by (auto simp: deflate_initialize_dynamic_huffman_tables_def Let_def get_value_error
        read_code_sizes_error construct_table_error decode_code_sizes_error
        split: sum.splits)

lemma decode_match_error:
  "decode_match bs dt c out cap off \<noteq> Inl PresetDictionaryRequired"
  by (auto simp: decode_match_def Let_def get_value_error get_huffman_encoded_value_error
        copy_compressed_def split: sum.splits)

lemma decode_huffman_loop_error:
  "decode_huffman_loop bs lt dt out cap off \<noteq> Inl PresetDictionaryRequired"
proof (induction bs lt dt out cap off rule: decode_huffman_loop.induct)
  case (1 bs lt dt out cap off)
  then show ?case
    by (subst decode_huffman_loop.simps)
       (auto simp: get_huffman_encoded_value_error decode_match_error split: sum.splits)
qed

lemma decode_huffman_error:
  "deflate_decode_huffman bs lt dt out cap off \<noteq> Inl PresetDictionaryRequired"
  by (simp add: deflate_decode_huffman_def decode_huffman_loop_error)

lemma calculate_adler32_error:
  "deflate_calculate_adler32 buffer n v \<noteq> Inl PresetDictionaryRequired"
  by (auto simp: deflate_calculate_adler32_def Let_def split: prod.splits)

lemma decode_uncompressed_block_error:
  "decode_uncompressed_block bs out cap off \<noteq> Inl PresetDictionaryRequired"
  by (auto simp: decode_uncompressed_block_def Let_def get_value_error split: sum.splits)

lemma decode_block_error:
  "decode_block t bs flt fdt out cap off \<noteq> Inl PresetDictionaryRequired"
  by (auto simp: decode_block_def decode_uncompressed_block_error decode_huffman_error
        initialize_dynamic_huffman_tables_error split: sum.splits)

lemma decode_blocks_error:
  "decode_blocks bs flt fdt out cap off \<noteq> Inl PresetDictionaryRequired"
proof (induction bs flt fdt out cap off rule: decode_blocks.induct)
  case (1 bs flt fdt out cap off)
  then show ?case
    by (subst decode_blocks.simps)
       (auto simp: get_value_error decode_block_error split: sum.splits)
qed

lemma verify_checksum_error:
  "verify_checksum bs out off \<noteq> Inl PresetDictionaryRequired"
  by (auto simp: verify_checksum_def Let_def calculate_adler32_error split: sum.splits)

lemma read_zlib_header_error:
  "read_zlib_header data n \<noteq> Inl PresetDictionaryRequired"
  by (auto simp: read_zlib_header_def Let_def)

lemma deflate_decompress_error:
  "deflate_decompress data n out cap \<noteq> Inl PresetDictionaryRequired"
  by (auto simp: deflate_decompress_def read_zlib_header_error fixed_tables_value
        decode_blocks_error verify_checksum_error split: sum.splits)



text \<open>
  Claim C5 (amended).  When bit 5 of the second header byte is set, the four bytes after
  the two header bytes are read as a big-endian number, the preset dictionary
  identifier.  An input shorter than 6 bytes is truncated.  Otherwise the identifier is
  only stored: a header with the compression method 8 and an accepted window size, in
  front of at least one more visible byte, yields the identifier together with the bit
  stream at offset 6, and the blocks are decoded from there.  No call of
  \<open>deflate_decompress\<close> fails with \<open>PresetDictionaryRequired\<close>.
\<close>

theorem preset_dictionary_identifier_recorded:
  assumes "data ! 1 AND 0x20 \<noteq> 0"
  shows "(n < 6 \<longrightarrow> read_zlib_header data n = Inl Truncated)
    \<and> (\<forall>bs ident. read_zlib_header data n = Inr (bs, ident) \<longrightarrow>
          ident = byte_stream_copy_to_uint32_big_endian data 2
          \<and> byte_stream bs = data \<and> byte_stream_offset bs = 6
          \<and> byte_stream_size bs = n - 6)
    \<and> (data ! 0 AND 0x0f = 8
        \<and> \<not> (push_bit (unat (drop_bit 4 (data ! 0) + 8)) 1 :: 32 word) > 32768
        \<and> 6 < n - 6 \<longrightarrow>
          (\<exists>bs. read_zlib_header data n
                  = Inr (bs, byte_stream_copy_to_uint32_big_endian data 2)))
    \<and> deflate_decompress data n out cap \<noteq> Inl PresetDictionaryRequired"
proof (intro conjI)
  show "n < 6 \<longrightarrow> read_zlib_header data n = Inl Truncated"
    using assms by (simp add: read_zlib_header_def)
  show "\<forall>bs ident. read_zlib_header data n = Inr (bs, ident) \<longrightarrow>
          ident = byte_stream_copy_to_uint32_big_endian data 2
          \<and> byte_stream bs = data \<and> byte_stream_offset bs = 6
          \<and> byte_stream_size bs = n - 6"
    using assms by (auto simp: read_zlib_header_def Let_def split: if_splits)
  show "data ! 0 AND 0x0f = 8
        \<and> \<not> (push_bit (unat (drop_bit 4 (data ! 0) + 8)) 1 :: 32 word) > 32768
        \<and> 6 < n - 6 \<longrightarrow>
          (\<exists>bs. read_zlib_header data n
                  = Inr (bs, byte_stream_copy_to_uint32_big_endian data 2))"
    using assms by (auto simp: read_zlib_header_def Let_def)
  show "deflate_decompress data n out cap \<noteq> Inl PresetDictionaryRequired"
    by (rule deflate_decompress_error)
qed

text \<open>
  The header \<^verbatim>\<open>78 20\<close> is followed by the identifier \<^verbatim>\<open>12 34 56 78\<close>: it is read, and
  the bit stream starts at offset 6.
\<close>

theorem preset_dictionary_identifier_recorded_witness:
  "preset_dictionary_stream ! 1 AND 0x20 \<noteq> 0
   \<and> (\<exists>bs. read_zlib_header preset_dictionary_stream 14 = Inr (bs, 0x12345678)
         \<and> byte_stream_offset bs = 6 \<and> byte_stream_size bs = 8)
   \<and> deflate_decompress preset_dictionary_stream 14 [] 0 \<noteq> Inl PresetDictionaryRequired"
proof -
  have f: "preset_dictionary_stream ! 1 AND 0x20 \<noteq> 0"
    by (simp add: preset_dictionary_stream_def)
  note t = preset_dictionary_identifier_recorded [OF f, of 14 "[]" 0]
  from t preset_dictionary_header have
    "\<exists>bs. read_zlib_header preset_dictionary_stream 14 = Inr (bs, 0x12345678)
         \<and> byte_stream_offset bs = 6 \<and> byte_stream_size bs = 8"
    by simp
  with f t show ?thesis by simp
qed

end
